theory Spec2Isabelle
  imports Complex_Main "HOL-Library.AList"
begin

section \<open>Data model\<close>

text \<open>
  The comment harvester exists in two copies: the client module (the file that declares
  \<^verbatim>\<open>processCommentsWithSearchTerms\<close>) and the server module \<^verbatim>\<open>server/routes.ts\<close>.
  Both share the cache, the credential manager, the rate-limited client and the tree
  extractor verbatim; they differ in \<^verbatim>\<open>searchComments\<close>.

  Strings are ASCII character lists. Integral JavaScript numbers (vote counts, epoch
  milliseconds, limits) are \<^typ>\<open>int\<close>. A comment's \<^verbatim>\<open>timestamp\<close> is kept as the
  epoch-millisecond instant that its ISO-8601 string denotes.
\<close>

datatype sentiment = Positive | Negative | Neutral

text \<open>
  Scores are JavaScript numbers computed with \<^verbatim>\<open>Math.log10\<close>: besides finite values
  (idealised as reals) they can be \<^verbatim>\<open>NaN\<close> (logarithm of a negative number) and
  \<^verbatim>\<open>-Infinity\<close> (logarithm of zero).
\<close>

datatype jsnum = NaN | NegInf | PosInf | Fin real

record comment =
  id_c :: string
  author :: string
  body :: string
  subreddit :: string
  upvotes :: int
  timestamp :: int
  permalink :: "string option"
  matchScore :: "jsnum option"
  score :: "jsnum option"
  awards :: "int option"
  sentiment :: "sentiment option"

section \<open>Array.prototype.sort\<close>

text \<open>
  \<^verbatim>\<open>Array.prototype.sort(cmp)\<close> is a stable sort. It is modelled as a stable insertion
  sort; \<open>after a b\<close> stands for \<^verbatim>\<open>cmp(a, b) > 0\<close>, "a sorts after b".
\<close>

fun insert_by :: "('a \<Rightarrow> 'a \<Rightarrow> bool) \<Rightarrow> 'a \<Rightarrow> 'a list \<Rightarrow> 'a list" where
  "insert_by after x [] = [x]"
| "insert_by after x (y # ys) = (if after x y then y # insert_by after x ys else x # y # ys)"

definition js_sort :: "('a \<Rightarrow> 'a \<Rightarrow> bool) \<Rightarrow> 'a list \<Rightarrow> 'a list" where
  "js_sort after xs = foldr (insert_by after) xs []"

section \<open>SearchCache\<close>

text \<open>
  The cache is a JavaScript \<^verbatim>\<open>Map\<close>: an association list in insertion order with
  distinct keys. \<^verbatim>\<open>Map.set\<close> overwrites in place or appends (\<^const>\<open>AList.update\<close>),
  \<^verbatim>\<open>Map.delete\<close> removes the key (\<^const>\<open>AList.delete\<close>). \<^verbatim>\<open>Date.now()\<close> is the
  explicit argument \<open>now\<close>.
\<close>

record cache_entry =
  entry_timestamp :: int
  entry_results :: "comment list"

record SearchCache =
  cache :: "(string \<times> cache_entry) list"
  maxSize :: int
  ttl :: int

datatype js_error =
    TypeError
  | RangeError
  | QueryMustBeString
  | AuthFailed
  | AuthExhausted
  | RateLimited
  | HttpError nat
  | NetworkError

text \<open>The constructor defaults: \<^verbatim>\<open>maxSize = 100, ttlMs = 5 * 60 * 1000\<close>.\<close>

definition new_SearchCache :: SearchCache where
  "new_SearchCache = \<lparr>cache = [], maxSize = 100, ttl = 5 * 60 * 1000\<rparr>"

definition SearchCache_get :: "SearchCache \<Rightarrow> string \<Rightarrow> int \<Rightarrow> comment list option \<times> SearchCache" where
  "SearchCache_get c key now =
     (case map_of (cache c) key of
        None \<Rightarrow> (None, c)
      | Some entry \<Rightarrow>
          if now - entry_timestamp entry > ttl c
          then (None, c\<lparr>cache := AList.delete key (cache c)\<rparr>)
          else (Some (entry_results entry), c))"

text \<open>
  \<^verbatim>\<open>Array.from(entries).sort(...)[0][0]\<close> raises a \<^verbatim>\<open>TypeError\<close> when the map is
  empty (which needs \<^verbatim>\<open>maxSize <= 0\<close>); the cache is then unchanged.
\<close>

definition oldest_first :: "(string \<times> cache_entry) list \<Rightarrow> (string \<times> cache_entry) list" where
  "oldest_first entries =
     js_sort (\<lambda>a b. entry_timestamp (snd a) - entry_timestamp (snd b) > 0) entries"

definition SearchCache_set :: "SearchCache \<Rightarrow> string \<Rightarrow> comment list \<Rightarrow> int \<Rightarrow> js_error + SearchCache" where
  "SearchCache_set c key rs now =
     (if int (length (cache c)) \<ge> maxSize c
      then (case oldest_first (cache c) of
              [] \<Rightarrow> Inl TypeError
            | (oldestKey, _) # _ \<Rightarrow>
                Inr (c\<lparr>cache := AList.update key \<lparr>entry_timestamp = now, entry_results = rs\<rparr>
                                   (AList.delete oldestKey (cache c))\<rparr>))
      else Inr (c\<lparr>cache := AList.update key \<lparr>entry_timestamp = now, entry_results = rs\<rparr> (cache c)\<rparr>))"

definition SearchCache_size :: "SearchCache \<Rightarrow> nat" where
  "SearchCache_size c = length (cache c)"

text \<open>A sequence of cache operations; a \<^verbatim>\<open>set\<close> that throws leaves the cache as it was.\<close>

datatype cache_op = Get string int | Set string "comment list" int

fun cache_step :: "SearchCache \<Rightarrow> cache_op \<Rightarrow> SearchCache" where
  "cache_step c (Get key now) = snd (SearchCache_get c key now)"
| "cache_step c (Set key rs now) =
     (case SearchCache_set c key rs now of Inl _ \<Rightarrow> c | Inr c' \<Rightarrow> c')"

definition cache_run :: "SearchCache \<Rightarrow> cache_op list \<Rightarrow> SearchCache" where
  "cache_run c ops = foldl cache_step c ops"

section \<open>Strings and regular expressions\<close>

text \<open>
  \<^verbatim>\<open>String.prototype.toLowerCase\<close>, \<^verbatim>\<open>includes\<close>, \<^verbatim>\<open>indexOf\<close>, \<^verbatim>\<open>trim\<close> and
  \<^verbatim>\<open>split\<close>, on ASCII strings.
\<close>

definition toLowerCase_char :: "char \<Rightarrow> char" where
  "toLowerCase_char ch =
     (case map_of (zip ''ABCDEFGHIJKLMNOPQRSTUVWXYZ'' ''abcdefghijklmnopqrstuvwxyz'') ch of
        Some l \<Rightarrow> l
      | None \<Rightarrow> ch)"

definition toLowerCase :: "string \<Rightarrow> string" where
  "toLowerCase s = map toLowerCase_char s"

definition startsWith :: "string \<Rightarrow> string \<Rightarrow> bool" where
  "startsWith s t = (take (length t) s = t)"

fun includes_str :: "string \<Rightarrow> string \<Rightarrow> bool" where
  "includes_str [] t = (t = [])"
| "includes_str (ch # s) t = (startsWith (ch # s) t \<or> includes_str s t)"

fun indexOf_from :: "nat \<Rightarrow> string \<Rightarrow> string \<Rightarrow> int" where
  "indexOf_from i [] t = (if t = [] then int i else - 1)"
| "indexOf_from i (ch # s) t = (if startsWith (ch # s) t then int i else indexOf_from (Suc i) s t)"

definition indexOf :: "string \<Rightarrow> string \<Rightarrow> int" where
  "indexOf s t = indexOf_from 0 s t"

definition is_space :: "char \<Rightarrow> bool" where
  "is_space ch = (ch \<in> set [CHR '' '', CHR 0x09, CHR 0x0A, CHR 0x0B, CHR 0x0C, CHR 0x0D])"

definition trim :: "string \<Rightarrow> string" where
  "trim s = rev (dropWhile is_space (rev (dropWhile is_space s)))"

text \<open>
  \<^verbatim>\<open>s.split(/\s+/)\<close>: the pieces between maximal runs of white space, empty pieces at
  the two ends included. \<open>insep\<close> tells that the scan is inside a separator run.
\<close>

fun split_ws_aux :: "bool \<Rightarrow> string \<Rightarrow> string \<Rightarrow> string list" where
  "split_ws_aux insep w [] = [w]"
| "split_ws_aux insep w (ch # s) =
     (if is_space ch
      then (if insep then split_ws_aux True w s else w # split_ws_aux True [] s)
      else split_ws_aux False (w @ [ch]) s)"

definition split_ws :: "string \<Rightarrow> string list" where
  "split_ws s = split_ws_aux False [] s"

text \<open>\<^verbatim>\<open>s.split(' ')\<close>: the pieces between single spaces.\<close>

fun split_space_aux :: "string \<Rightarrow> string \<Rightarrow> string list" where
  "split_space_aux w [] = [w]"
| "split_space_aux w (ch # s) =
     (if ch = CHR '' '' then w # split_space_aux [] s else split_space_aux (w @ [ch]) s)"

definition split_space :: "string \<Rightarrow> string list" where
  "split_space s = split_space_aux [] s"

text \<open>
  \<^verbatim>\<open>new RegExp(escapeRegex(term), 'gi')\<close> matches the literal \<open>term\<close> without regard to
  case, so a regular expression is represented by its (non-empty) literal.
  \<^verbatim>\<open>text.match(re)\<close> with the \<^verbatim>\<open>g\<close> flag collects the non-overlapping matches from left
  to right and leaves \<^verbatim>\<open>lastIndex = 0\<close>; \<open>match_count\<close> is the length of that array
  (0 for \<^verbatim>\<open>null\<close>). \<open>skip\<close> counts the characters still covered by the previous match.
\<close>

type_synonym regex = string

definition match_at :: "regex \<Rightarrow> string \<Rightarrow> bool" where
  "match_at re s = (toLowerCase (take (length re) s) = toLowerCase re)"

fun match_count_from :: "regex \<Rightarrow> nat \<Rightarrow> string \<Rightarrow> nat" where
  "match_count_from re skip [] = 0"
| "match_count_from re skip (ch # s) =
     (if skip > 0 then match_count_from re (skip - 1) s
      else if match_at re (ch # s) then Suc (match_count_from re (length re - 1) s)
      else match_count_from re 0 s)"

definition match_count :: "regex \<Rightarrow> string \<Rightarrow> nat" where
  "match_count re s = match_count_from re 0 s"

text \<open>
  \<^verbatim>\<open>re.test(text)\<close> on a global regular expression is stateful: the search starts at
  \<^verbatim>\<open>lastIndex\<close>; a hit moves \<^verbatim>\<open>lastIndex\<close> behind the match, a miss resets it to 0.
  The result is the answer paired with the new \<^verbatim>\<open>lastIndex\<close>.
\<close>

fun search_from :: "regex \<Rightarrow> nat \<Rightarrow> string \<Rightarrow> nat option" where
  "search_from re i [] = None"
| "search_from re i (ch # s) = (if match_at re (ch # s) then Some i else search_from re (Suc i) s)"

definition regex_test :: "regex \<Rightarrow> nat \<Rightarrow> string \<Rightarrow> bool \<times> nat" where
  "regex_test re lastIndex s =
     (if lastIndex > length s then (False, 0)
      else (case search_from re lastIndex (drop lastIndex s) of
              None \<Rightarrow> (False, 0)
            | Some i \<Rightarrow> (True, i + length re)))"

text \<open>
  The sentiment patterns \<^verbatim>\<open>/\b(w1|w2|...)\b/\<close>: one of the words occurs with a word
  boundary on both sides. \<open>prev\<close> tells that the preceding character is a word character.
\<close>

definition is_word_char :: "char \<Rightarrow> bool" where
  "is_word_char ch =
     (ch \<in> set ''abcdefghijklmnopqrstuvwxyzABCDEFGHIJKLMNOPQRSTUVWXYZ0123456789_'')"

definition word_here :: "string list \<Rightarrow> string \<Rightarrow> bool" where
  "word_here ws s =
     list_ex (\<lambda>w. startsWith s w \<and>
                  (case drop (length w) s of [] \<Rightarrow> True | d # _ \<Rightarrow> \<not> is_word_char d)) ws"

fun word_test :: "string list \<Rightarrow> bool \<Rightarrow> string \<Rightarrow> bool" where
  "word_test ws prev [] = False"
| "word_test ws prev (ch # s) =
     ((\<not> prev \<and> word_here ws (ch # s)) \<or> word_test ws (is_word_char ch) s)"

text \<open>Template literals render numbers in decimal.\<close>

function string_of_nat :: "nat \<Rightarrow> string" where
  "string_of_nat n =
     (if n < 10 then [''0123456789'' ! n]
      else string_of_nat (n div 10) @ [''0123456789'' ! (n mod 10)])"
  by pat_completeness auto
termination
  by (relation "measure (\<lambda>n. n)") auto

definition string_of_int :: "int \<Rightarrow> string" where
  "string_of_int i = (if i < 0 then CHR ''-'' # string_of_nat (nat (- i)) else string_of_nat (nat i))"

text \<open>
  \<^verbatim>\<open>Array.prototype.slice(start, end)\<close>: negative indices count from the end, and both
  are clamped to the array.
\<close>

definition js_index :: "nat \<Rightarrow> int \<Rightarrow> nat" where
  "js_index len i = (if i < 0 then nat (max (int len + i) 0) else min (nat i) len)"

definition js_slice :: "int \<Rightarrow> int \<Rightarrow> 'a list \<Rightarrow> 'a list" where
  "js_slice start fin xs =
     (let k = js_index (length xs) start; e = js_index (length xs) fin
      in take (e - k) (drop k xs))"

section \<open>JavaScript numbers\<close>

fun jadd :: "jsnum \<Rightarrow> jsnum \<Rightarrow> jsnum" where
  "jadd NaN _ = NaN"
| "jadd _ NaN = NaN"
| "jadd PosInf NegInf = NaN"
| "jadd NegInf PosInf = NaN"
| "jadd PosInf _ = PosInf"
| "jadd _ PosInf = PosInf"
| "jadd NegInf _ = NegInf"
| "jadd _ NegInf = NegInf"
| "jadd (Fin x) (Fin y) = Fin (x + y)"

fun jneg :: "jsnum \<Rightarrow> jsnum" where
  "jneg NaN = NaN"
| "jneg PosInf = NegInf"
| "jneg NegInf = PosInf"
| "jneg (Fin x) = Fin (- x)"

definition jsub :: "jsnum \<Rightarrow> jsnum \<Rightarrow> jsnum" where
  "jsub a b = jadd a (jneg b)"

text \<open>Multiplication by a finite factor, as the scoring formulas use it.\<close>

fun jscale :: "jsnum \<Rightarrow> real \<Rightarrow> jsnum" where
  "jscale NaN k = NaN"
| "jscale (Fin x) k = Fin (x * k)"
| "jscale PosInf k = (if k > 0 then PosInf else if k < 0 then NegInf else NaN)"
| "jscale NegInf k = (if k > 0 then NegInf else if k < 0 then PosInf else NaN)"

text \<open>\<^verbatim>\<open>a < b\<close> and \<^verbatim>\<open>a > 0\<close>: false as soon as one side is \<^verbatim>\<open>NaN\<close>.\<close>

fun jless :: "jsnum \<Rightarrow> jsnum \<Rightarrow> bool" where
  "jless NaN _ = False"
| "jless _ NaN = False"
| "jless (Fin x) (Fin y) = (x < y)"
| "jless NegInf NegInf = False"
| "jless NegInf _ = True"
| "jless _ NegInf = False"
| "jless PosInf _ = False"
| "jless _ PosInf = True"

definition jpositive :: "jsnum \<Rightarrow> bool" where
  "jpositive a = jless (Fin 0) a"

text \<open>\<^verbatim>\<open>Math.log10\<close> of an integral argument.\<close>

definition log10 :: "int \<Rightarrow> jsnum" where
  "log10 n = (if n < 0 then NaN else if n = 0 then NegInf else Fin (log 10 (real_of_int n)))"

text \<open>\<^verbatim>\<open>x || 0\<close> for an optional number: \<^verbatim>\<open>undefined\<close>, \<^verbatim>\<open>NaN\<close> and 0 give 0.\<close>

definition num_or0 :: "jsnum option \<Rightarrow> jsnum" where
  "num_or0 v = (case v of None \<Rightarrow> Fin 0 | Some NaN \<Rightarrow> Fin 0 | Some x \<Rightarrow> x)"

definition int_or0 :: "int option \<Rightarrow> int" where
  "int_or0 v = (case v of None \<Rightarrow> 0 | Some n \<Rightarrow> n)"

section \<open>Scoring\<close>

text \<open>\<^verbatim>\<open>Date.now()\<close> is the explicit argument \<open>now\<close> (epoch milliseconds).\<close>

definition calculateRecencyScore :: "int \<Rightarrow> int \<Rightarrow> real" where
  "calculateRecencyScore tstamp now =
     (let commentDate = tstamp;
          ageInHours = real_of_int (now - commentDate) / (1000 * 60 * 60)
      in if ageInHours < 24 then 5 * (1 - ageInHours / 24) else 0)"

definition calculateBaseScore :: "comment \<Rightarrow> int \<Rightarrow> jsnum" where
  "calculateBaseScore c now =
     (let upvoteScore = jscale (log10 (upvotes c + 1)) 2;
          awardScore = jscale (log10 (int_or0 (awards c) + 1)) 3;
          recency = calculateRecencyScore (timestamp c) now
      in jadd (jadd upvoteScore awardScore) (Fin recency))"

definition calculateScore :: "comment \<Rightarrow> int \<Rightarrow> int \<Rightarrow> jsnum" where
  "calculateScore c matchCount now =
     (let baseScore = calculateBaseScore c now;
          matchScore = jscale (log10 (matchCount + 1)) 5
      in jadd baseScore matchScore)"

section \<open>Tree extractor\<close>

text \<open>
  A node of the content API's JSON: its \<^verbatim>\<open>kind\<close> and, when \<^verbatim>\<open>data\<close> is present, the
  scalar fields of \<^verbatim>\<open>data\<close> paired with \<^verbatim>\<open>data.replies?.data?.children\<close> (absent when
  any link of that chain is missing or falsy, as for the API's \<^verbatim>\<open>replies: ""\<close>).
\<close>

record raw_fields =
  r_id :: string
  r_author :: "string option"
  r_body :: "string option"
  r_subreddit :: "string option"
  r_ups :: "int option"
  r_created_utc :: "int option"
  r_permalink :: "string option"
  r_total_awards_received :: "int option"

datatype raw_item = RawItem (kind: string) (data: "(raw_fields \<times> raw_item list option) option")

text \<open>\<^verbatim>\<open>s || d\<close> for an optional string: \<^verbatim>\<open>undefined\<close> and the empty string give \<open>d\<close>.\<close>

definition str_or :: "string option \<Rightarrow> string \<Rightarrow> string" where
  "str_or v d = (case v of None \<Rightarrow> d | Some s \<Rightarrow> if s = [] then d else s)"

text \<open>
  \<^verbatim>\<open>new Date(created_utc * 1000).toISOString()\<close> raises a \<^verbatim>\<open>RangeError\<close> for an invalid
  date: a missing \<^verbatim>\<open>created_utc\<close> or an instant more than 8.64e15 ms away from the epoch.
\<close>

definition toISOString :: "int option \<Rightarrow> js_error + int" where
  "toISOString created_utc =
     (case created_utc of
        None \<Rightarrow> Inl RangeError
      | Some secs \<Rightarrow>
          if \<bar>secs * 1000\<bar> > 8640000000000000 then Inl RangeError else Inr (secs * 1000))"

definition positive_words :: "string list" where
  "positive_words = [''great'', ''good'', ''love'', ''awesome'', ''excellent'', ''amazing'',
                     ''best'', ''nice'', ''perfect'', ''happy'']"

definition negative_words :: "string list" where
  "negative_words = [''bad'', ''awful'', ''hate'', ''terrible'', ''worst'', ''sucks'',
                     ''horrible'', ''poor'', ''sad'', ''angry'']"

definition classify :: "string \<Rightarrow> sentiment" where
  "classify b =
     (let txt = toLowerCase b
      in if word_test positive_words False txt then Positive
         else if word_test negative_words False txt then Negative
         else Neutral)"

definition tree_comment :: "string \<Rightarrow> string \<Rightarrow> raw_fields \<Rightarrow> int \<Rightarrow> comment" where
  "tree_comment sub postId d ts =
     \<lparr>id_c = r_id d,
      author = str_or (r_author d) ''[deleted]'',
      body = str_or (r_body d) [],
      subreddit = sub,
      upvotes = int_or0 (r_ups d),
      timestamp = ts,
      permalink = Some (''/r/'' @ sub @ ''/comments/'' @ postId @ ''/'' @ r_id d),
      matchScore = None,
      score = None,
      awards = Some (int_or0 (r_total_awards_received d)),
      sentiment = Some (classify (str_or (r_body d) []))\<rparr>"

definition is_removed :: "raw_fields \<Rightarrow> bool" where
  "is_removed d =
     (r_body d = Some ''[deleted]'' \<or> r_body d = Some ''[removed]'' \<or> r_author d = Some ''[deleted]'')"

text \<open>
  \<open>processComments\<close> is the inner recursive function; \<open>processItems\<close> is its \<^verbatim>\<open>for\<close>
  loop. The array \<^verbatim>\<open>comments\<close> that the source pushes to is the accumulator \<open>acc\<close>; an
  exception ends the walk. A removed comment is skipped with \<^verbatim>\<open>continue\<close>, which skips
  its replies as well.
\<close>

fun processComments :: "string \<Rightarrow> string \<Rightarrow> nat \<Rightarrow> raw_item list \<Rightarrow> comment list \<Rightarrow> js_error + comment list"
and processItems :: "string \<Rightarrow> string \<Rightarrow> nat \<Rightarrow> raw_item list \<Rightarrow> comment list \<Rightarrow> js_error + comment list"
where
  "processComments sub postId depth items acc =
     (if depth > 10 then Inr acc else processItems sub postId depth items acc)"
| "processItems sub postId depth [] acc = Inr acc"
| "processItems sub postId depth (RawItem k None # rest) acc =
     processItems sub postId depth rest acc"
| "processItems sub postId depth (RawItem k (Some (d, replies)) # rest) acc =
     (if k = ''t1'' \<and> is_removed d then processItems sub postId depth rest acc
      else
        (case (if k = ''t1'' then map_sum id (\<lambda>ts. acc @ [tree_comment sub postId d ts])
                                   (toISOString (r_created_utc d))
               else Inr acc) of
           Inl e \<Rightarrow> Inl e
         | Inr acc1 \<Rightarrow>
             (case replies of
                None \<Rightarrow> processItems sub postId depth rest acc1
              | Some children \<Rightarrow>
                  (case processComments sub postId (depth + 1) children acc1 of
                     Inl e \<Rightarrow> Inl e
                   | Inr acc2 \<Rightarrow> processItems sub postId depth rest acc2))))"

definition extractComments :: "raw_item list \<Rightarrow> string \<Rightarrow> string \<Rightarrow> js_error + comment list" where
  "extractComments commentData sub postId = processComments sub postId 0 commentData []"

text \<open>
  The tree cut below recursion depth \<open>n\<close>, counted as \<open>processComments\<close> counts it (the
  top-level nodes are at depth 0): nodes at depth \<open>\<le> n\<close> stay, the replies of the nodes at
  depth \<open>n\<close> are emptied. \<open>levels\<close> is the number of nesting levels of a tree.
\<close>

primrec truncate_tree :: "nat \<Rightarrow> raw_item list \<Rightarrow> raw_item list" where
  "truncate_tree 0 items =
     map (\<lambda>item. RawItem (kind item)
            (map_option (\<lambda>(d, replies). (d, map_option (\<lambda>_. []) replies)) (data item))) items"
| "truncate_tree (Suc n) items =
     map (\<lambda>item. RawItem (kind item)
            (map_option (\<lambda>(d, replies). (d, map_option (truncate_tree n) replies)) (data item))) items"

fun levels :: "raw_item list \<Rightarrow> nat" where
  "levels [] = 0"
| "levels (RawItem k None # rest) = max 1 (levels rest)"
| "levels (RawItem k (Some (d, None)) # rest) = max 1 (levels rest)"
| "levels (RawItem k (Some (d, Some children)) # rest) = max (Suc (levels children)) (levels rest)"

text \<open>A synthetic thread: \<open>n\<close> comments, each the only reply of the one before.\<close>

definition nested_fields :: "nat \<Rightarrow> raw_fields" where
  "nested_fields n =
     \<lparr>r_id = ''c'' @ string_of_nat n, r_author = Some ''alice'', r_body = Some ''nice point'',
      r_subreddit = None, r_ups = Some 1, r_created_utc = Some 1700000000,
      r_permalink = None, r_total_awards_received = None\<rparr>"

fun nested_thread :: "nat \<Rightarrow> raw_item list" where
  "nested_thread 0 = []"
| "nested_thread (Suc n) = [RawItem ''t1'' (Some (nested_fields n, Some (nested_thread n)))]"

section \<open>Credential manager and rate-limited client\<close>

text \<open>
  The process-wide token state, together with what the environment observes of the
  process: the clock, the number of token exchanges and of API requests issued so far,
  and the log of outbound calls and timer waits. The environment answers the \<open>n\<close>-th
  token exchange and the \<open>n\<close>-th API request, each after some latency.
\<close>

datatype event = Sleep int | TokenExchange | ApiGet string

datatype exchange_result = Granted string int | ExchangeFailed

datatype 'd api_result = Data 'd | Status nat | NoResponse

record net =
  accessToken :: "string option"
  tokenExpiration :: int
  tokenRetryCount :: nat
  clock :: int
  exchanges :: nat
  gets :: nat
  trace :: "event list"

record 'd world =
  exchange_reply :: "nat \<Rightarrow> exchange_result"
  exchange_latency :: "nat \<Rightarrow> int"
  api_reply :: "nat \<Rightarrow> string \<Rightarrow> 'd api_result"
  api_latency :: "nat \<Rightarrow> int"

definition initial_net :: "int \<Rightarrow> net" where
  "initial_net t0 = \<lparr>accessToken = None, tokenExpiration = 0, tokenRetryCount = 0,
                     clock = t0, exchanges = 0, gets = 0, trace = []\<rparr>"

definition sleep :: "int \<Rightarrow> net \<Rightarrow> net" where
  "sleep ms s = s\<lparr>clock := clock s + ms, trace := trace s @ [Sleep ms]\<rparr>"

definition backoffTime :: "nat \<Rightarrow> int" where
  "backoffTime retryCount = (if retryCount = 0 then 0 else min (1000 * 2 ^ retryCount) 30000)"

definition token_valid :: "net \<Rightarrow> bool" where
  "token_valid s =
     (case accessToken s of None \<Rightarrow> False | Some t \<Rightarrow> t \<noteq> [] \<and> clock s < tokenExpiration s)"

definition getRedditAccessToken :: "'d world \<Rightarrow> net \<Rightarrow> (js_error + string) \<times> net" where
  "getRedditAccessToken w s =
     (if token_valid s then (Inr (the (accessToken s)), s)
      else
        let s1 = (if backoffTime (tokenRetryCount s) > 0 then sleep (backoffTime (tokenRetryCount s)) s else s);
            s2 = s1\<lparr>clock := clock s1 + exchange_latency w (exchanges s1),
                    exchanges := exchanges s1 + 1,
                    trace := trace s1 @ [TokenExchange]\<rparr>
        in (case exchange_reply w (exchanges s1) of
              Granted tok expires_in \<Rightarrow>
                (Inr tok, s2\<lparr>accessToken := Some tok,
                             tokenExpiration := clock s2 + expires_in * 1000 - 60000,
                             tokenRetryCount := 0\<rparr>)
            | ExchangeFailed \<Rightarrow>
                if tokenRetryCount s2 + 1 > 3
                then (Inl AuthExhausted, s2\<lparr>tokenRetryCount := 0\<rparr>)
                else (Inl AuthFailed, s2\<lparr>tokenRetryCount := tokenRetryCount s2 + 1,
                                         accessToken := None, tokenExpiration := 0\<rparr>)))"

text \<open>
  \<open>refresh_calls n\<close>: \<open>n\<close> calls of \<open>getRedditAccessToken\<close> in a row, with the result of
  each.
\<close>

fun refresh_calls :: "nat \<Rightarrow> 'd world \<Rightarrow> net \<Rightarrow> (js_error + string) list \<times> net" where
  "refresh_calls 0 w s = ([], s)"
| "refresh_calls (Suc n) w s =
     (let (r, s1) = getRedditAccessToken w s; (rs, s2) = refresh_calls n w s1 in (r # rs, s2))"

text \<open>
  An exception of \<open>getRedditAccessToken\<close> is a plain \<^verbatim>\<open>Error\<close>, not an axios error with a
  response, so it is rethrown. \<^verbatim>\<open>maxAttempts\<close> is 3 and \<^verbatim>\<open>attempt\<close> defaults to 1.
\<close>

definition maxAttempts :: nat where
  "maxAttempts = 3"

function redditApiRequest :: "'d world \<Rightarrow> string \<Rightarrow> nat \<Rightarrow> net \<Rightarrow> (js_error + 'd) \<times> net" where
  "redditApiRequest w url attempt s =
     (case getRedditAccessToken w s of
        (Inl e, s1) \<Rightarrow> (Inl e, s1)
      | (Inr token, s1) \<Rightarrow>
          let s2 = s1\<lparr>clock := clock s1 + api_latency w (gets s1),
                      gets := gets s1 + 1,
                      trace := trace s1 @ [ApiGet url]\<rparr>
          in (case api_reply w (gets s1) url of
                Data d \<Rightarrow> (Inr d, s2)
              | NoResponse \<Rightarrow> (Inl NetworkError, s2)
              | Status st \<Rightarrow>
                  if st = 429 then
                    (if attempt < maxAttempts
                     then redditApiRequest w url (attempt + 1) (sleep (2 ^ attempt * 1000) s2)
                     else (Inl RateLimited, s2))
                  else if st = 401 then
                    (let s3 = s2\<lparr>accessToken := None, tokenExpiration := 0\<rparr>
                     in if attempt < maxAttempts
                        then redditApiRequest w url (attempt + 1) s3
                        else (Inl (HttpError st), s3))
                  else (Inl (HttpError st), s2)))"
  by pat_completeness auto
termination
  by (relation "measure (\<lambda>(w, url, attempt, s). maxAttempts - attempt)") auto

section \<open>Search parameters and the fallback dataset\<close>

text \<open>
  \<^verbatim>\<open>SearchParams.query\<close> is declared a string, but the route handler passes
  \<^verbatim>\<open>req.query.query as string\<close>, which at run time is an array when the URL repeats the
  parameter; the code itself tests \<^verbatim>\<open>typeof query !== 'string'\<close>. So the query is a
  run-time value. The server's \<^verbatim>\<open>SearchParams\<close> has no \<^verbatim>\<open>filterType\<close> and no
  \<^verbatim>\<open>timeFrame\<close>; the server functions never read them.
\<close>

datatype query_value = QString string | QStrings "string list" | QNumber int | QUndefined

record SearchParams =
  query :: query_value
  filterType :: string
  timeFrame :: string
  sortBy :: string
  minUpvotes :: int
  limit :: int

text \<open>
  \<^verbatim>\<open>mockComments\<close> is built when the module is loaded; \<open>loaded\<close> is \<^verbatim>\<open>new Date()\<close> at
  that moment.
\<close>

definition mockComments :: "int \<Rightarrow> comment list" where
  "mockComments loaded =
     [\<lparr>id_c = ''mock1'', author = ''tech_enthusiast'',
       body = ''Modern programming languages like Rust and Go are gaining popularity for their performance characteristics and safety features.'',
       subreddit = ''programming'', upvotes = 128, timestamp = loaded, permalink = None,
       matchScore = None, score = None, awards = Some 2, sentiment = Some Positive\<rparr>,
      \<lparr>id_c = ''mock2'', author = ''science_lover'',
       body = ''The James Webb Space Telescope has revolutionized our understanding of distant galaxies. The images are absolutely stunning!'',
       subreddit = ''science'', upvotes = 243, timestamp = loaded, permalink = None,
       matchScore = None, score = None, awards = Some 5, sentiment = Some Positive\<rparr>,
      \<lparr>id_c = ''mock3'', author = ''design_thinker'',
       body = ''Apple prioritizes simplicity and user experience over feature bloat, which is why their products remain popular despite the premium pricing.'',
       subreddit = ''technology'', upvotes = 87, timestamp = loaded, permalink = None,
       matchScore = None, score = None, awards = Some 1, sentiment = Some Neutral\<rparr>,
      \<lparr>id_c = ''mock4'', author = ''movie_critic'',
       body = ''The latest superhero movie was terrible. The CGI looked cheap and the plot had more holes than Swiss cheese.'',
       subreddit = ''movies'', upvotes = 54, timestamp = loaded, permalink = None,
       matchScore = None, score = None, awards = Some 0, sentiment = Some Negative\<rparr>,
      \<lparr>id_c = ''mock5'', author = ''health_advisor'',
       body = ''Regular exercise and a balanced diet are still the best ways to maintain long-term health, despite all the fad diets that come and go.'',
       subreddit = ''health'', upvotes = 176, timestamp = loaded, permalink = None,
       matchScore = None, score = None, awards = Some 3, sentiment = Some Positive\<rparr>]"

section \<open>Filtering, scoring and sorting (client module)\<close>

text \<open>
  Array callbacks receive the element's index; \<open>clk i\<close> is the reading of
  \<^verbatim>\<open>Date.now()\<close> when the callback scores the element at index \<open>i\<close>.
\<close>

definition mapi :: "(nat \<Rightarrow> 'a \<Rightarrow> 'b) \<Rightarrow> 'a list \<Rightarrow> 'b list" where
  "mapi f xs = map (\<lambda>(i, x). f i x) (enumerate 0 xs)"

definition filter_mapi :: "(nat \<Rightarrow> 'a \<Rightarrow> 'b option) \<Rightarrow> 'a list \<Rightarrow> 'b list" where
  "filter_mapi f xs = List.map_filter (\<lambda>(i, x). f i x) (enumerate 0 xs)"

definition searchTerms_of :: "string \<Rightarrow> string list" where
  "searchTerms_of q = filter (\<lambda>t. length t > 0) (split_ws (trim (toLowerCase q)))"

text \<open>The \<^verbatim>\<open>keyword\<close> filter: occurrences of the terms in the body.\<close>

definition keyword_matchCount :: "regex list \<Rightarrow> comment \<Rightarrow> nat" where
  "keyword_matchCount regexes c = foldl (\<lambda>n re. n + match_count re (body c)) 0 regexes"

text \<open>
  The \<^verbatim>\<open>all\<close> filter. For each regular expression: the occurrences in the body (which
  leaves \<^verbatim>\<open>lastIndex = 0\<close>), then \<^verbatim>\<open>re.test(authorText)\<close>, then
  \<^verbatim>\<open>re.test(subredditText)\<close>, which starts where the author test left \<^verbatim>\<open>lastIndex\<close>.
\<close>

definition term_matchCount :: "comment \<Rightarrow> regex \<Rightarrow> nat" where
  "term_matchCount c re =
     (let authorText = toLowerCase (author c);
          subredditText = toLowerCase (subreddit c);
          bodyMatches = match_count re (body c);
          (authorHit, lastIndex) = regex_test re 0 authorText;
          (subredditHit, _) = regex_test re lastIndex subredditText
      in bodyMatches + (if authorHit then 2 else 0) + (if subredditHit then 3 else 0))"

definition all_matchCount :: "regex list \<Rightarrow> comment \<Rightarrow> nat" where
  "all_matchCount regexes c = foldl (\<lambda>n re. n + term_matchCount c re) 0 regexes"

definition exactPhraseBonus :: "string \<Rightarrow> comment \<Rightarrow> nat" where
  "exactPhraseBonus q c =
     (let commentText = toLowerCase (body c)
      in if length q > 3 \<and> includes_str commentText (toLowerCase q) then 10 else 0)"

definition finalMatchCount :: "regex list \<Rightarrow> string \<Rightarrow> comment \<Rightarrow> nat" where
  "finalMatchCount regexes q c = all_matchCount regexes c + exactPhraseBonus q c"

definition with_score :: "(nat \<Rightarrow> int) \<Rightarrow> nat \<Rightarrow> comment \<Rightarrow> comment" where
  "with_score clk i c = c\<lparr>score := Some (calculateBaseScore c (clk i))\<rparr>"

definition with_match :: "(nat \<Rightarrow> int) \<Rightarrow> nat \<Rightarrow> nat \<Rightarrow> comment \<Rightarrow> comment" where
  "with_match clk i n c =
     c\<lparr>matchScore := Some (Fin (real n)), score := Some (calculateScore c (int n) (clk i))\<rparr>"

definition sort_comments :: "string \<Rightarrow> comment list \<Rightarrow> comment list" where
  "sort_comments sortKey cs =
     (if sortKey = ''upvotes'' then js_sort (\<lambda>a b. upvotes b - upvotes a > 0) cs
      else if sortKey = ''timestamp'' then js_sort (\<lambda>a b. timestamp b - timestamp a > 0) cs
      else if sortKey = ''awards'' then js_sort (\<lambda>a b. int_or0 (awards b) - int_or0 (awards a) > 0) cs
      else js_sort (\<lambda>a b. jpositive (jsub (num_or0 (score b)) (num_or0 (score a)))) cs)"

text \<open>\<^verbatim>\<open>self.findIndex(p)\<close>: the first index whose element satisfies \<open>p\<close>, or \<open>-1\<close>.\<close>

fun findIndex_from :: "nat \<Rightarrow> ('a \<Rightarrow> bool) \<Rightarrow> 'a list \<Rightarrow> int" where
  "findIndex_from i p [] = - 1"
| "findIndex_from i p (x # xs) = (if p x then int i else findIndex_from (Suc i) p xs)"

definition findIndex :: "('a \<Rightarrow> bool) \<Rightarrow> 'a list \<Rightarrow> int" where
  "findIndex p xs = findIndex_from 0 p xs"

definition remove_duplicates :: "comment list \<Rightarrow> comment list" where
  "remove_duplicates self =
     map snd (filter (\<lambda>(i, c). int i = findIndex (\<lambda>d. id_c d = id_c c) self) (enumerate 0 self))"

definition processCommentsWithSearchTerms ::
  "(nat \<Rightarrow> int) \<Rightarrow> comment list \<Rightarrow> string list \<Rightarrow> regex list \<Rightarrow> string \<Rightarrow> string \<Rightarrow> string \<Rightarrow> int \<Rightarrow> comment list"
where
  "processCommentsWithSearchTerms clk cs searchTerms regexes fType q sortKey minUp =
     (let filtered0 = filter (\<lambda>c. upvotes c \<ge> minUp) cs;
          filtered =
            (if searchTerms = [] \<and> fType = ''all'' then mapi (with_score clk) filtered0
             else if fType = ''keyword'' then
               filter_mapi (\<lambda>i c. let matchCount = keyword_matchCount regexes c
                                   in if matchCount > 0 then Some (with_match clk i matchCount c) else None)
                           filtered0
             else if fType = ''subreddit'' then
               mapi (with_score clk)
                    (filter (\<lambda>c. toLowerCase (subreddit c) = toLowerCase q) filtered0)
             else if fType = ''author'' then
               mapi (with_score clk)
                    (filter (\<lambda>c. includes_str (toLowerCase (author c)) (toLowerCase q)) filtered0)
             else
               filter_mapi (\<lambda>i c. if searchTerms = [] then Some c
                                   else let n = finalMatchCount regexes q c
                                        in if n > 0 then Some (with_match clk i n c) else None)
                           filtered0)
      in remove_duplicates (sort_comments sortKey filtered))"

section \<open>searchComments (client module)\<close>

text \<open>
  \<^verbatim>\<open>params.query.toLowerCase()\<close> raises a \<^verbatim>\<open>TypeError\<close> unless the query is a string.
\<close>

definition query_toLowerCase :: "query_value \<Rightarrow> js_error + string" where
  "query_toLowerCase v = (case v of QString s \<Rightarrow> Inr (toLowerCase s) | _ \<Rightarrow> Inl TypeError)"

definition getCacheKey :: "SearchParams \<Rightarrow> int \<Rightarrow> js_error + string" where
  "getCacheKey params page =
     map_sum id
       (\<lambda>q. q @ ''_'' @ filterType params @ ''_'' @ timeFrame params @ ''_'' @ sortBy params
               @ ''_'' @ string_of_int (minUpvotes params) @ ''_'' @ string_of_int (limit params)
               @ ''_'' @ string_of_int page)
       (query_toLowerCase (query params))"

text \<open>
  What one call receives from its environment. The fan-out over sources, sort strategies
  and chunks of posts, with its timers and its 8 second race, reaches the rest of the
  function only through the array \<^verbatim>\<open>allComments\<close>: every chunk that settles merges its
  flattened comment arrays into it, one synchronous \<^verbatim>\<open>forEach\<close> per chunk. \<open>batches\<close>
  are the chunks merged until the race is decided, in the order of their merges;
  \<open>late_batches\<close> are those merged while the supplementary search request is awaited;
  \<open>searchData\<close> is \<^verbatim>\<open>searchData.data.children\<close> of that request, absent when the
  request failed or carried no listing.
\<close>

record harvest =
  now_get :: int
  now_set :: int
  score_clock :: "nat \<Rightarrow> int"
  batches :: "comment list list"
  late_batches :: "comment list list"
  searchData :: "raw_item list option"

definition merge_comment :: "comment list \<Rightarrow> comment \<Rightarrow> comment list" where
  "merge_comment allComments c =
     (if list_ex (\<lambda>x. id_c x = id_c c) allComments then allComments else allComments @ [c])"

definition merge_batch :: "comment list \<Rightarrow> comment list \<Rightarrow> comment list" where
  "merge_batch allComments batch = foldl merge_comment allComments batch"

definition search_comment :: "raw_fields \<Rightarrow> int \<Rightarrow> comment" where
  "search_comment d ts =
     \<lparr>id_c = r_id d,
      author = str_or (r_author d) ''[deleted]'',
      body = str_or (r_body d) [],
      subreddit = str_or (r_subreddit d) [],
      upvotes = int_or0 (r_ups d),
      timestamp = ts,
      permalink = r_permalink d,
      matchScore = None,
      score = None,
      awards = Some (int_or0 (r_total_awards_received d)),
      sentiment = None\<rparr>"

text \<open>
  The \<^verbatim>\<open>forEach\<close> over the supplementary search results; an exception leaves it, and
  the enclosing \<^verbatim>\<open>catch\<close> keeps what was pushed before.
\<close>

fun merge_search :: "comment list \<Rightarrow> raw_item list \<Rightarrow> comment list" where
  "merge_search allComments [] = allComments"
| "merge_search allComments (RawItem k None # rest) = merge_search allComments rest"
| "merge_search allComments (RawItem k (Some (d, replies)) # rest) =
     (if k \<noteq> ''t1'' then merge_search allComments rest
      else if is_removed d then merge_search allComments rest
      else if list_ex (\<lambda>c. id_c c = r_id d) allComments then merge_search allComments rest
      else (case toISOString (r_created_utc d) of
              Inl e \<Rightarrow> allComments
            | Inr ts \<Rightarrow> merge_search (allComments @ [search_comment d ts]) rest))"

definition collect_comments :: "harvest \<Rightarrow> string list \<Rightarrow> int \<Rightarrow> comment list" where
  "collect_comments h searchTerms lmt =
     (let allComments = foldl merge_batch [] (batches h)
      in if int (length allComments) < lmt * 2 \<and> length searchTerms > 0
         then (let allComments1 = foldl merge_batch allComments (late_batches h)
               in case searchData h of
                    None \<Rightarrow> allComments1
                  | Some children \<Rightarrow> merge_search allComments1 children)
         else allComments)"

text \<open>
  The body of the \<^verbatim>\<open>try\<close> block with the cache as it stands when the body ends or
  throws, and \<open>searchComments\<close> with its \<^verbatim>\<open>catch\<close>. \<open>Inl\<close> would be a rejected promise.
\<close>

definition searchComments_try ::
  "int \<Rightarrow> harvest \<Rightarrow> SearchCache \<Rightarrow> SearchParams \<Rightarrow> int \<Rightarrow> (js_error + comment list) \<times> SearchCache"
where
  "searchComments_try loaded h c params page =
     (case getCacheKey params page of
        Inl e \<Rightarrow> (Inl e, c)
      | Inr cacheKey \<Rightarrow>
          (case SearchCache_get c cacheKey (now_get h) of
             (Some cachedResults, c1) \<Rightarrow> (Inr cachedResults, c1)
           | (None, c1) \<Rightarrow>
               (case query params of
                  QString q \<Rightarrow>
                    (let searchTerms = searchTerms_of q;
                         regexes = searchTerms;
                         allComments = collect_comments h searchTerms (limit params);
                         processedComments =
                           (if length allComments > 0
                            then processCommentsWithSearchTerms (score_clock h) allComments searchTerms
                                   regexes (filterType params) q (sortBy params) (minUpvotes params)
                            else mockComments loaded)
                     in case SearchCache_set c1 cacheKey processedComments (now_set h) of
                          Inl e \<Rightarrow> (Inl e, c1)
                        | Inr c2 \<Rightarrow> (Inr (js_slice 0 (limit params) processedComments), c2))
                | _ \<Rightarrow> (Inl QueryMustBeString, c1))))"

definition searchComments ::
  "int \<Rightarrow> harvest \<Rightarrow> SearchCache \<Rightarrow> SearchParams \<Rightarrow> int \<Rightarrow> (js_error + comment list) \<times> SearchCache"
where
  "searchComments loaded h c params page =
     (case searchComments_try loaded h c params page of
        (Inr rs, c') \<Rightarrow> (Inr rs, c')
      | (Inl e, c') \<Rightarrow> (Inr (js_slice 0 (limit params) (mockComments loaded)), c'))"

text \<open>
  The cache is the module's private \<^verbatim>\<open>searchCache\<close>, created empty when the module is
  loaded and touched by \<open>searchComments\<close> only. \<open>search_session\<close> gives the results of a
  sequence of calls, each with its own environment, request and page, the cache passed
  from call to call.
\<close>

fun search_session ::
  "int \<Rightarrow> SearchCache \<Rightarrow> (harvest \<times> SearchParams \<times> int) list \<Rightarrow> (js_error + comment list) list"
where
  "search_session loaded c [] = []"
| "search_session loaded c ((h, params, page) # calls) =
     fst (searchComments loaded h c params page)
       # search_session loaded (snd (searchComments loaded h c params page)) calls"

section \<open>searchComments (server module)\<close>

record search_result =
  comments :: "comment list"
  totalResults :: int
  subreddits :: nat
  cacheSize :: nat

definition getCacheKey_server :: "SearchParams \<Rightarrow> int \<Rightarrow> js_error + string" where
  "getCacheKey_server params page =
     map_sum id
       (\<lambda>q. q @ ''_'' @ sortBy params @ ''_'' @ string_of_int (minUpvotes params)
               @ ''_'' @ string_of_int (limit params) @ ''_'' @ string_of_int page)
       (query_toLowerCase (query params))"

text \<open>
  What one call of the server's function receives from its environment: \<open>fetched\<close> is
  either the exception that ended the token request, the post search or the reading of
  its listing, or \<^verbatim>\<open>commentArrays\<close>, the comments of the (at most 10) posts.
\<close>

record server_harvest =
  s_now_get :: int
  s_now_set :: int
  fetched :: "js_error + comment list list"

definition server_matchScore :: "string \<Rightarrow> comment \<Rightarrow> real" where
  "server_matchScore queryLower c =
     (let bodyLower = toLowerCase (body c);
          exact = (if includes_str bodyLower queryLower
                   then 10 + (if indexOf bodyLower queryLower < 20 then 5 else 0) else 0);
          keywords = filter (\<lambda>w. length w > 3) (split_space queryLower);
          kw = foldl (\<lambda>n keyword. if includes_str bodyLower keyword then n + 3 else n) exact keywords
      in kw + min (real_of_int (upvotes c) / 100) 5 + real_of_int (int_or0 (awards c)) * 2)"

definition server_after :: "string \<Rightarrow> comment \<Rightarrow> comment \<Rightarrow> bool" where
  "server_after sortKey a b =
     (if sortKey = ''upvotes'' then upvotes b - upvotes a > 0
      else if sortKey = ''timestamp'' then timestamp b - timestamp a > 0
      else if sortKey = ''awards'' then int_or0 (awards b) - int_or0 (awards a) > 0
      else jpositive (jsub (num_or0 (matchScore b)) (num_or0 (matchScore a))))"

definition count_subreddits :: "comment list \<Rightarrow> nat" where
  "count_subreddits cs = length (remdups (map subreddit cs))"

definition server_filtered :: "string \<Rightarrow> SearchParams \<Rightarrow> comment list list \<Rightarrow> comment list" where
  "server_filtered q params commentArrays =
     (let allComments = concat commentArrays;
          queryLower = toLowerCase q;
          direct = filter (\<lambda>c. \<not> upvotes c < minUpvotes params
                                \<and> includes_str (toLowerCase (body c)) queryLower) allComments;
          filteredComments =
            (if length direct = 0 then filter (\<lambda>c. upvotes c \<ge> minUpvotes params) allComments
             else direct);
          scored = map (\<lambda>c. c\<lparr>matchScore := Some (Fin (server_matchScore queryLower c))\<rparr>)
                       filteredComments
      in js_sort (server_after (sortBy params)) scored)"

definition server_searchComments_try ::
  "server_harvest \<Rightarrow> SearchCache \<Rightarrow> SearchParams \<Rightarrow> int \<Rightarrow> (js_error + search_result) \<times> SearchCache"
where
  "server_searchComments_try h c params page =
     (case getCacheKey_server params page of
        Inl e \<Rightarrow> (Inl e, c)
      | Inr cacheKey \<Rightarrow>
          (case SearchCache_get c cacheKey (s_now_get h) of
             (Some cachedResults, c1) \<Rightarrow>
               (Inr \<lparr>comments = cachedResults,
                     totalResults = int (length cachedResults) * 3,
                     subreddits = count_subreddits cachedResults,
                     cacheSize = SearchCache_size c1\<rparr>, c1)
           | (None, c1) \<Rightarrow>
               (case query params of
                  QString q \<Rightarrow>
                    (case fetched h of
                       Inl e \<Rightarrow> (Inl e, c1)
                     | Inr commentArrays \<Rightarrow>
                         (let filteredComments = server_filtered q params commentArrays;
                              startIndex = (page - 1) * limit params;
                              paginatedResults =
                                js_slice startIndex (startIndex + limit params) filteredComments
                          in case SearchCache_set c1 cacheKey paginatedResults (s_now_set h) of
                               Inl e \<Rightarrow> (Inl e, c1)
                             | Inr c2 \<Rightarrow>
                                 (Inr \<lparr>comments = paginatedResults,
                                       totalResults = int (length filteredComments),
                                       subreddits = count_subreddits filteredComments,
                                       cacheSize = SearchCache_size c2\<rparr>, c2)))
                | _ \<Rightarrow> (Inl QueryMustBeString, c1))))"

definition server_searchComments ::
  "int \<Rightarrow> server_harvest \<Rightarrow> SearchCache \<Rightarrow> SearchParams \<Rightarrow> int \<Rightarrow> (js_error + search_result) \<times> SearchCache"
where
  "server_searchComments loaded h c params page =
     (case server_searchComments_try h c params page of
        (Inr r, c') \<Rightarrow> (Inr r, c')
      | (Inl e, c') \<Rightarrow>
          (Inr \<lparr>comments = mockComments loaded,
                totalResults = int (length (mockComments loaded)),
                subreddits = count_subreddits (mockComments loaded),
                cacheSize = SearchCache_size c'\<rparr>, c'))"

section \<open>Fixtures\<close>

text \<open>A full cache of capacity 2; the entry of key \<open>a\<close> is the older one.\<close>

definition cache2 :: SearchCache where
  "cache2 = \<lparr>cache = [(''b'', \<lparr>entry_timestamp = 20, entry_results = []\<rparr>),
                      (''a'', \<lparr>entry_timestamp = 10, entry_results = []\<rparr>)],
             maxSize = 2, ttl = 1000\<rparr>"

definition cache2_after :: SearchCache where
  "cache2_after = \<lparr>cache = [(''b'', \<lparr>entry_timestamp = 20, entry_results = []\<rparr>),
                            (''c'', \<lparr>entry_timestamp = 30, entry_results = []\<rparr>)],
                   maxSize = 2, ttl = 1000\<rparr>"

text \<open>An environment in which every token exchange fails, one in which every API request
  is answered with 429, and the state after the first token was granted in the latter.\<close>

definition failing_world :: "unit world" where
  "failing_world = \<lparr>exchange_reply = (\<lambda>n. ExchangeFailed), exchange_latency = (\<lambda>n. 100),
                     api_reply = (\<lambda>n url. NoResponse), api_latency = (\<lambda>n. 100)\<rparr>"

definition limited_world :: "unit world" where
  "limited_world = \<lparr>exchange_reply = (\<lambda>n. Granted ''tok'' 3600), exchange_latency = (\<lambda>n. 100),
                     api_reply = (\<lambda>n url. Status 429), api_latency = (\<lambda>n. 100)\<rparr>"

definition net_with_token :: net where
  "net_with_token = \<lparr>accessToken = Some ''tok'', tokenExpiration = 3540100, tokenRetryCount = 0,
                      clock = 100, exchanges = 1, gets = 0, trace = [TokenExchange]\<rparr>"

text \<open>Two comments, and the second as the server module scores it for the query \<open>rust\<close>.\<close>

definition comment0 :: comment where
  "comment0 = \<lparr>id_c = ''c0'', author = ''bob'', body = ''It is OK now'', subreddit = ''pics'',
               upvotes = 7, timestamp = 0, permalink = None, matchScore = None, score = None,
               awards = Some 1, sentiment = Some Neutral\<rparr>"

definition comment1 :: comment where
  "comment1 = \<lparr>id_c = ''c1'', author = ''amy'', body = ''I love Rust'', subreddit = ''pics'',
               upvotes = 9, timestamp = 0, permalink = None, matchScore = None, score = None,
               awards = Some 0, sentiment = Some Positive\<rparr>"

definition comment1_scored :: comment where
  "comment1_scored = comment1\<lparr>matchScore := Some (Fin (1809 / 100))\<rparr>"

text \<open>A request for two comments, and one whose query is an array (a repeated URL
  parameter).\<close>

definition params_rust :: SearchParams where
  "params_rust = \<lparr>query = QString ''rust'', filterType = ''all'', timeFrame = ''week'',
                   sortBy = ''relevance'', minUpvotes = 5, limit = 2\<rparr>"

definition params_array :: SearchParams where
  "params_array = \<lparr>query = QStrings [''a'', ''b''], filterType = ''all'', timeFrame = ''week'',
                    sortBy = ''relevance'', minUpvotes = 10, limit = 2\<rparr>"

text \<open>Harvests of the client module: one whose chunks repeat comments, and two that
  collect nothing (every outbound request fails), the second 11 seconds after the first
  was cached; the cache after the first of them.\<close>

definition harvest_dups :: harvest where
  "harvest_dups = \<lparr>now_get = 1000, now_set = 9000, score_clock = (\<lambda>i. 9000),
                    batches = [[comment0, comment1], [comment1, comment0]],
                    late_batches = [], searchData = None\<rparr>"

definition harvest_none :: harvest where
  "harvest_none = \<lparr>now_get = 1000, now_set = 9000, score_clock = (\<lambda>i. 9000),
                    batches = [], late_batches = [], searchData = None\<rparr>"

definition harvest_again :: harvest where
  "harvest_again = \<lparr>now_get = 20000, now_set = 29000, score_clock = (\<lambda>i. 29000),
                     batches = [], late_batches = [], searchData = None\<rparr>"

definition cache_rust :: SearchCache where
  "cache_rust = \<lparr>cache = [(''rust_all_week_relevance_5_2_1'',
                            \<lparr>entry_timestamp = 9000, entry_results = mockComments 0\<rparr>)],
                  maxSize = 100, ttl = 5 * 60 * 1000\<rparr>"

text \<open>Harvests of the server module: the same comment fetched twice, and a failed token
  request.\<close>

definition server_dups :: server_harvest where
  "server_dups = \<lparr>s_now_get = 1000, s_now_set = 9000, fetched = Inr [[comment1], [comment1]]\<rparr>"

definition server_down :: server_harvest where
  "server_down = \<lparr>s_now_get = 1000, s_now_set = 9000, fetched = Inl AuthFailed\<rparr>"

section \<open>Properties of the sort\<close>

lemma set_insert_by: "set (insert_by after x ys) = insert x (set ys)"
  by (induction ys) auto

lemma length_insert_by: "length (insert_by after x ys) = Suc (length ys)"
  by (induction ys) auto

lemma set_js_sort: "set (js_sort after xs) = set xs"
  by (induction xs) (simp_all add: js_sort_def set_insert_by)

lemma length_js_sort: "length (js_sort after xs) = length xs"
  by (induction xs) (simp_all add: js_sort_def length_insert_by)

lemma hd_insert_by:
  "hd (insert_by after x ys) = (if ys \<noteq> [] \<and> after x (hd ys) then hd ys else x)"
  by (cases ys) auto

lemma js_sort_Cons: "js_sort after (x # xs) = insert_by after x (js_sort after xs)"
  by (simp add: js_sort_def)

lemma js_sort_Nil_iff: "js_sort after xs = [] \<longleftrightarrow> xs = []"
  using length_js_sort [of after xs] by (metis length_0_conv)

section \<open>The cache\<close>

lemma oldest_first_head:
  "entries \<noteq> [] \<Longrightarrow>
     hd (oldest_first entries) \<in> set entries \<and>
     (\<forall>x \<in> set entries. entry_timestamp (snd (hd (oldest_first entries))) \<le> entry_timestamp (snd x))"
proof (induction entries)
  case Nil
  then show ?case by simp
next
  case (Cons a entries)
  show ?case
  proof (cases "entries = []")
    case True
    then show ?thesis by (simp add: oldest_first_def js_sort_def)
  next
    case False
    with Cons.IH have ih: "hd (oldest_first entries) \<in> set entries"
      "\<forall>x \<in> set entries. entry_timestamp (snd (hd (oldest_first entries))) \<le> entry_timestamp (snd x)"
      by auto
    from False have ne: "oldest_first entries \<noteq> []"
      by (simp add: oldest_first_def js_sort_Nil_iff)
    show ?thesis
      using ih ne unfolding oldest_first_def js_sort_Cons hd_insert_by
      by (auto simp: oldest_first_def)
  qed
qed

lemma length_update_le: "length (AList.update k v al) \<le> Suc (length al)"
  by (induction al) auto

lemma length_delete_less:
  "k \<in> fst ` set al \<Longrightarrow> length (AList.delete k al) < length al"
proof (induction al)
  case Nil
  then show ?case by simp
next
  case (Cons a al)
  show ?case
  proof (cases "fst a = k")
    case True
    then show ?thesis using AList.length_delete_le [of k al] by (cases a) simp
  next
    case False
    with Cons.prems have "k \<in> fst ` set al" by auto
    with Cons.IH False show ?thesis by (cases a) simp
  qed
qed

lemma length_delete_distinct:
  "distinct (map fst al) \<Longrightarrow> k \<in> fst ` set al \<Longrightarrow> Suc (length (AList.delete k al)) = length al"
  by (induction al) (auto simp: rev_image_eqI)

lemma set_delete_distinct:
  "distinct (map fst al) \<Longrightarrow> (k, v) \<in> set al \<Longrightarrow> set (AList.delete k al) = set al - {(k, v)}"
  by (induction al) (auto simp: AList.delete_eq rev_image_eqI)

lemma SearchCache_set_ttl:
  "SearchCache_set c key rs now = Inr c' \<Longrightarrow> ttl c' = ttl c \<and> maxSize c' = maxSize c"
  by (auto simp: SearchCache_set_def split: if_splits list.splits)

lemma SearchCache_set_lookup:
  "SearchCache_set c key rs now = Inr c' \<Longrightarrow>
     map_of (cache c') key = Some \<lparr>entry_timestamp = now, entry_results = rs\<rparr>"
  by (auto simp: SearchCache_set_def AList.update_conv' split: if_splits list.splits)

lemma cache2_set: "SearchCache_set cache2 ''c'' [] 30 = Inr cache2_after"
  by (simp add: SearchCache_set_def cache2_def cache2_after_def oldest_first_def js_sort_def)

text \<open>
  With a capacity of 0 (or less) the first \<^verbatim>\<open>set\<close> on the empty cache throws: there is
  no oldest entry to read the key of.
\<close>

lemma SearchCache_set_empty_full:
  "cache c = [] \<Longrightarrow> maxSize c \<le> 0 \<Longrightarrow> SearchCache_set c key rs now = Inl TypeError"
  by (simp add: SearchCache_set_def oldest_first_def js_sort_def)

text \<open>
  C5. An entry written at time \<open>T\<close> is returned by a read at \<open>T + ttl - 1\<close>; a read at
  \<open>T + ttl + 1\<close> returns \<^verbatim>\<open>null\<close> and deletes the entry from the cache.
\<close>

theorem cache_ttl_boundary:
  assumes "SearchCache_set c key rs T = Inr c'"
  shows "SearchCache_get c' key (T + ttl c - 1) = (Some rs, c') \<and>
         SearchCache_get c' key (T + ttl c + 1) = (None, c'\<lparr>cache := AList.delete key (cache c')\<rparr>) \<and>
         map_of (cache (snd (SearchCache_get c' key (T + ttl c + 1)))) key = None"
proof -
  from assms have t: "ttl c' = ttl c" by (simp add: SearchCache_set_ttl)
  from assms have e: "map_of (cache c') key = Some \<lparr>entry_timestamp = T, entry_results = rs\<rparr>"
    by (rule SearchCache_set_lookup)
  show ?thesis
    by (simp add: SearchCache_get_def e t AList.delete_conv')
qed

theorem cache_ttl_boundary_witness:
  "SearchCache_set cache2 ''c'' [] 30 = Inr cache2_after \<and>
   SearchCache_get cache2_after ''c'' (30 + 1000 - 1) = (Some [], cache2_after) \<and>
   SearchCache_get cache2_after ''c'' (30 + 1000 + 1) =
     (None, \<lparr>cache = [(''b'', \<lparr>entry_timestamp = 20, entry_results = []\<rparr>)], maxSize = 2, ttl = 1000\<rparr>)"
  using cache_ttl_boundary [OF cache2_set] cache2_set
  by (simp add: cache2_def cache2_after_def)

lemma SearchCache_set_bound:
  assumes "int (length (cache c)) \<le> maxSize c" and "SearchCache_set c key rs now = Inr c'"
  shows "int (length (cache c')) \<le> maxSize c' \<and> maxSize c' = maxSize c"
proof (cases "int (length (cache c)) \<ge> maxSize c")
  case True
  with assms(2) obtain k e rest where s: "oldest_first (cache c) = (k, e) # rest"
    and c': "c' = c\<lparr>cache := AList.update key \<lparr>entry_timestamp = now, entry_results = rs\<rparr>
                        (AList.delete k (cache c))\<rparr>"
    by (auto simp: SearchCache_set_def split: list.splits)
  from s have "cache c \<noteq> []" by (auto simp: oldest_first_def js_sort_def)
  from oldest_first_head [OF this] s have "k \<in> fst ` set (cache c)" by force
  then have "length (AList.delete k (cache c)) < length (cache c)"
    by (rule length_delete_less)
  moreover have "length (cache c') \<le> Suc (length (AList.delete k (cache c)))"
    by (simp add: c' length_update_le)
  ultimately show ?thesis using assms(1) by (simp add: c')
next
  case False
  with assms(2) have c': "c' = c\<lparr>cache := AList.update key \<lparr>entry_timestamp = now, entry_results = rs\<rparr> (cache c)\<rparr>"
    by (simp add: SearchCache_set_def)
  have "length (cache c') \<le> Suc (length (cache c))"
    by (simp add: c' length_update_le)
  with False show ?thesis by (simp add: c')
qed

lemma SearchCache_get_bound:
  "int (length (cache c)) \<le> maxSize c \<Longrightarrow>
   int (length (cache (snd (SearchCache_get c key now)))) \<le> maxSize (snd (SearchCache_get c key now)) \<and>
   maxSize (snd (SearchCache_get c key now)) = maxSize c"
  using AList.length_delete_le [of key "cache c"]
  by (auto simp: SearchCache_get_def split: option.splits)

lemma cache_step_bound:
  "int (length (cache c)) \<le> maxSize c \<Longrightarrow>
   int (length (cache (cache_step c x))) \<le> maxSize (cache_step c x) \<and> maxSize (cache_step c x) = maxSize c"
proof (cases x)
  case (Get key now)
  assume "int (length (cache c)) \<le> maxSize c"
  then show ?thesis using SearchCache_get_bound [of c key now] Get by simp
next
  case (Set key rs now)
  assume a: "int (length (cache c)) \<le> maxSize c"
  show ?thesis
  proof (cases "SearchCache_set c key rs now")
    case (Inl e)
    then show ?thesis using a Set by simp
  next
    case (Inr c')
    then show ?thesis using SearchCache_set_bound [OF a Inr] Set by simp
  qed
qed

lemma cache_run_bound:
  "int (length (cache c)) \<le> maxSize c \<Longrightarrow>
   int (length (cache (cache_run c ops))) \<le> maxSize c \<and> maxSize (cache_run c ops) = maxSize c"
proof (induction ops arbitrary: c)
  case Nil
  then show ?case by (simp add: cache_run_def)
next
  case (Cons x ops)
  from cache_step_bound [OF Cons.prems, of x]
  have s: "int (length (cache (cache_step c x))) \<le> maxSize (cache_step c x)"
    and m: "maxSize (cache_step c x) = maxSize c" by auto
  from Cons.IH [OF s] m show ?case by (simp add: cache_run_def)
qed

lemma cache_set_at_capacity:
  assumes d: "distinct (map fst (cache c))"
      and full: "int (length (cache c)) = maxSize c"
      and ne: "cache c \<noteq> []"
  shows "\<exists>oldestKey oldest c'.
           (oldestKey, oldest) \<in> set (cache c) \<and>
           (\<forall>e \<in> set (cache c). entry_timestamp oldest \<le> entry_timestamp (snd e)) \<and>
           SearchCache_set c key rs now = Inr c' \<and>
           cache c' = AList.update key \<lparr>entry_timestamp = now, entry_results = rs\<rparr>
                        (AList.delete oldestKey (cache c)) \<and>
           set (AList.delete oldestKey (cache c)) = set (cache c) - {(oldestKey, oldest)} \<and>
           Suc (length (AList.delete oldestKey (cache c))) = length (cache c) \<and>
           map_of (cache c') key = Some \<lparr>entry_timestamp = now, entry_results = rs\<rparr> \<and>
           int (length (cache c')) \<le> maxSize c' \<and>
           distinct (map fst (cache c'))"
proof -
  from ne have sne: "oldest_first (cache c) \<noteq> []"
    by (simp add: oldest_first_def js_sort_Nil_iff)
  then obtain k e rest where s: "oldest_first (cache c) = (k, e) # rest"
    by (cases "oldest_first (cache c)") auto
  from oldest_first_head [OF ne] s
  have mem: "(k, e) \<in> set (cache c)"
    and least: "\<forall>x \<in> set (cache c). entry_timestamp e \<le> entry_timestamp (snd x)"
    by auto
  from mem have kin: "k \<in> fst ` set (cache c)" by force
  let ?c' = "c\<lparr>cache := AList.update key \<lparr>entry_timestamp = now, entry_results = rs\<rparr>
                        (AList.delete k (cache c))\<rparr>"
  have r: "SearchCache_set c key rs now = Inr ?c'"
    using full s by (simp add: SearchCache_set_def)
  have len: "Suc (length (AList.delete k (cache c))) = length (cache c)"
    using d kin by (rule length_delete_distinct)
  have "length (cache ?c') \<le> Suc (length (AList.delete k (cache c)))"
    by (simp add: length_update_le)
  with len full have bound: "int (length (cache ?c')) \<le> maxSize ?c'" by simp
  have dist: "distinct (map fst (cache ?c'))"
    using d by (simp add: AList.distinct_update AList.distinct_delete)
  have look: "map_of (cache ?c') key = Some \<lparr>entry_timestamp = now, entry_results = rs\<rparr>"
    by (simp add: AList.update_conv')
  show ?thesis
    using mem least r len bound dist look set_delete_distinct [OF d mem]
    by (intro exI [of _ k] exI [of _ e] exI [of _ ?c']) simp
qed

text \<open>
  C6. On a cache that holds exactly \<open>maxSize\<close> entries (\<open>maxSize > 0\<close>, keys distinct as in
  every \<^verbatim>\<open>Map\<close>), \<^verbatim>\<open>set\<close> deletes exactly one entry, one whose insertion timestamp is
  the smallest, and then stores the new entry with the timestamp \<open>now\<close>; and every
  sequence of \<^verbatim>\<open>get\<close>/\<^verbatim>\<open>set\<close> operations keeps a cache of at most \<open>maxSize\<close> entries
  within \<open>maxSize\<close>.
\<close>

theorem cache_eviction_and_capacity:
  "(distinct (map fst (cache c)) \<and> int (length (cache c)) = maxSize c \<and> 0 < maxSize c \<longrightarrow>
      (\<exists>oldestKey oldest c'.
           (oldestKey, oldest) \<in> set (cache c) \<and>
           (\<forall>e \<in> set (cache c). entry_timestamp oldest \<le> entry_timestamp (snd e)) \<and>
           SearchCache_set c key rs now = Inr c' \<and>
           cache c' = AList.update key \<lparr>entry_timestamp = now, entry_results = rs\<rparr>
                        (AList.delete oldestKey (cache c)) \<and>
           set (AList.delete oldestKey (cache c)) = set (cache c) - {(oldestKey, oldest)} \<and>
           Suc (length (AList.delete oldestKey (cache c))) = length (cache c) \<and>
           map_of (cache c') key = Some \<lparr>entry_timestamp = now, entry_results = rs\<rparr> \<and>
           int (length (cache c')) \<le> maxSize c' \<and>
           distinct (map fst (cache c')))) \<and>
   (int (length (cache c)) \<le> maxSize c \<longrightarrow>
      int (length (cache (cache_run c ops))) \<le> maxSize c)"
proof (intro conjI impI)
  assume a: "distinct (map fst (cache c)) \<and> int (length (cache c)) = maxSize c \<and> 0 < maxSize c"
  then have "cache c \<noteq> []" by auto
  with a show "\<exists>oldestKey oldest c'.
           (oldestKey, oldest) \<in> set (cache c) \<and>
           (\<forall>e \<in> set (cache c). entry_timestamp oldest \<le> entry_timestamp (snd e)) \<and>
           SearchCache_set c key rs now = Inr c' \<and>
           cache c' = AList.update key \<lparr>entry_timestamp = now, entry_results = rs\<rparr>
                        (AList.delete oldestKey (cache c)) \<and>
           set (AList.delete oldestKey (cache c)) = set (cache c) - {(oldestKey, oldest)} \<and>
           Suc (length (AList.delete oldestKey (cache c))) = length (cache c) \<and>
           map_of (cache c') key = Some \<lparr>entry_timestamp = now, entry_results = rs\<rparr> \<and>
           int (length (cache c')) \<le> maxSize c' \<and>
           distinct (map fst (cache c'))"
    using cache_set_at_capacity [of c key rs now] by blast
next
  assume "int (length (cache c)) \<le> maxSize c"
  then show "int (length (cache (cache_run c ops))) \<le> maxSize c"
    using cache_run_bound [of c ops] by blast
qed

theorem cache_eviction_and_capacity_witness:
  "distinct (map fst (cache cache2)) \<and> int (length (cache cache2)) = maxSize cache2 \<and>
   0 < maxSize cache2 \<and>
   (\<exists>oldestKey oldest c'.
      (oldestKey, oldest) \<in> set (cache cache2) \<and>
      (\<forall>e \<in> set (cache cache2). entry_timestamp oldest \<le> entry_timestamp (snd e)) \<and>
      SearchCache_set cache2 ''c'' [] 30 = Inr c' \<and>
      cache c' = AList.update ''c'' \<lparr>entry_timestamp = 30, entry_results = []\<rparr>
                   (AList.delete oldestKey (cache cache2)) \<and>
      int (length (cache c')) \<le> maxSize c') \<and>
   SearchCache_set cache2 ''c'' [] 30 = Inr cache2_after \<and>
   int (length (cache (cache_run cache2 [Set ''c'' [] 30, Get ''b'' 2000, Set ''d'' [] 2001])))
     \<le> maxSize cache2"
proof -
  have h: "distinct (map fst (cache cache2)) \<and> int (length (cache cache2)) = maxSize cache2 \<and>
           0 < maxSize cache2"
    by (simp add: cache2_def)
  have b: "int (length (cache cache2)) \<le> maxSize cache2"
    by (simp add: cache2_def)
  from cache_eviction_and_capacity
         [of cache2 "''c''" "[]" 30 "[Set ''c'' [] 30, Get ''b'' 2000, Set ''d'' [] 2001]"] h b
  show ?thesis using cache2_set by blast
qed

section \<open>The tree extractor\<close>

lemma truncate_tree_Nil: "truncate_tree n [] = []"
  by (cases n) simp_all

lemma truncate_tree_None:
  "truncate_tree n (RawItem k None # rest) = RawItem k None # truncate_tree n rest"
  by (cases n) simp_all

lemma truncate_tree_leaf:
  "truncate_tree n (RawItem k (Some (d, None)) # rest) =
     RawItem k (Some (d, None)) # truncate_tree n rest"
  by (cases n) simp_all

lemma truncate_tree_0_Some:
  "truncate_tree 0 (RawItem k (Some (d, Some children)) # rest) =
     RawItem k (Some (d, Some [])) # truncate_tree 0 rest"
  by simp

lemma truncate_tree_Suc_Some:
  "truncate_tree (Suc n) (RawItem k (Some (d, Some children)) # rest) =
     RawItem k (Some (d, Some (truncate_tree n children))) # truncate_tree (Suc n) rest"
  by simp

lemma processComments_beyond: "depth > 10 \<Longrightarrow> processComments sub postId depth items acc = Inr acc"
  by simp

lemma process_truncate:
  "processComments sub postId depth items acc =
     processComments sub postId depth (truncate_tree (10 - depth) items) acc"
  "depth \<le> 10 \<Longrightarrow> processItems sub postId depth items acc =
     processItems sub postId depth (truncate_tree (10 - depth) items) acc"
proof (induction sub postId depth items acc and sub postId depth items acc
       rule: processComments_processItems.induct)
  case (1 sub postId depth items acc)
  then show ?case by (cases "depth > 10") simp_all
next
  case (2 sub postId depth acc)
  then show ?case by (simp add: truncate_tree_Nil)
next
  case (3 sub postId depth k rest acc)
  then show ?case by (simp add: truncate_tree_None)
next
  case (4 sub postId depth k d replies rest acc)
  show ?case
  proof (cases replies)
    case None
    with 4 show ?thesis
      by (auto simp: truncate_tree_leaf split: sum.splits)
  next
    case (Some children)
    show ?thesis
    proof (cases "depth = 10")
      case True
      with 4 Some show ?thesis
        by (auto simp: truncate_tree_0_Some split: sum.splits)
    next
      case False
      with "4.prems" obtain n where n: "10 - depth = Suc n" "10 - (depth + 1) = n"
        by (cases "10 - depth") auto
      with 4 Some False show ?thesis
        by (auto simp: truncate_tree_Suc_Some split: sum.splits)
    qed
  qed
qed


lemma levels_truncate: "levels (truncate_tree n items) \<le> Suc n"
proof (induction n arbitrary: items)
  case 0
  show ?case
  proof (induction items rule: levels.induct)
    case 1
    then show ?case by simp
  next
    case (2 k rest)
    then show ?case by (simp add: truncate_tree_None)
  next
    case (3 k d rest)
    then show ?case by (simp add: truncate_tree_leaf)
  next
    case (4 k d children rest)
    then show ?case by (simp add: truncate_tree_0_Some)
  qed
next
  case (Suc n)
  show ?case
  proof (induction items rule: levels.induct)
    case 1
    then show ?case by simp
  next
    case (2 k rest)
    then show ?case by simp
  next
    case (3 k d rest)
    then show ?case by simp
  next
    case (4 k d children rest)
    then show ?case using Suc.IH [of children]
      by simp
  qed
qed

lemma truncate_tree_shallow: "levels items \<le> Suc n \<Longrightarrow> truncate_tree n items = items"
proof (induction n arbitrary: items)
  case 0
  then show ?case
  proof (induction items rule: levels.induct)
    case 1
    then show ?case by simp
  next
    case (2 k rest)
    then show ?case by (simp add: truncate_tree_None)
  next
    case (3 k d rest)
    then show ?case by (simp add: truncate_tree_leaf)
  next
    case (4 k d children rest)
    then have "levels children = 0" by simp
    then have "children = []" by (cases children rule: levels.cases) auto
    with 4 show ?case by (simp add: truncate_tree_0_Some)
  qed
next
  case (Suc n)
  from Suc.prems show ?case
  proof (induction items rule: levels.induct)
    case 1
    then show ?case by simp
  next
    case (2 k rest)
    then show ?case by simp
  next
    case (3 k d rest)
    then show ?case by simp
  next
    case (4 k d children rest)
    then show ?case using Suc.IH [of children]
      by simp
  qed
qed

lemma nested_not_removed: "\<not> is_removed (nested_fields n)"
  by (simp add: is_removed_def nested_fields_def)

lemma nested_created: "toISOString (r_created_utc (nested_fields n)) = Inr 1700000000000"
  by (simp add: toISOString_def nested_fields_def)

lemma nested_thread_walk:
  "\<exists>cs. processComments sub postId depth (nested_thread n) acc = Inr (acc @ cs) \<and>
        length cs = min n (11 - depth)"
proof (induction n arbitrary: depth acc)
  case 0
  then show ?case by simp
next
  case (Suc n)
  show ?case
  proof (cases "depth > 10")
    case True
    then show ?thesis by simp
  next
    case False
    let ?c = "tree_comment sub postId (nested_fields n) 1700000000000"
    from Suc.IH [of "depth + 1" "acc @ [?c]"] obtain cs where
      cs: "processComments sub postId (depth + 1) (nested_thread n) (acc @ [?c]) = Inr ((acc @ [?c]) @ cs)"
      and len: "length cs = min n (11 - (depth + 1))" by blast
    have "processComments sub postId depth (nested_thread (Suc n)) acc =
            (case processComments sub postId (depth + 1) (nested_thread n) (acc @ [?c]) of
               Inl e \<Rightarrow> Inl e | Inr acc2 \<Rightarrow> Inr acc2)"
      using False
      by (subst processComments.simps)
         (simp add: nested_not_removed nested_created del: processComments.simps split: sum.splits)
    with cs have "processComments sub postId depth (nested_thread (Suc n)) acc = Inr (acc @ (?c # cs))"
      by (simp del: processComments.simps)
    moreover have "length (?c # cs) = min (Suc n) (11 - depth)"
      using len False by simp
    ultimately show ?thesis by blast
  qed
qed

lemma levels_nested_thread: "levels (nested_thread n) = n"
  by (induction n) simp_all

text \<open>
  C4. The extractor is a total function (its definition by \<^theory_text>\<open>fun\<close> carries the
  termination proof), so it returns on every reply tree; its result on a tree equals its
  result on the tree truncated at recursion depth 10 (depth counted from 0 at the top
  level, as \<^verbatim>\<open>processComments\<close> counts it), a tree that has no node beyond that depth;
  a thread nested 50 deep gives the same result as its truncation, namely 11 comments.
\<close>

theorem extract_depth_cap:
  "extractComments tree sub postId = extractComments (truncate_tree 10 tree) sub postId \<and>
   levels (truncate_tree 10 tree) \<le> 11 \<and>
   levels (nested_thread 50) = 50 \<and>
   extractComments (nested_thread 50) sub postId =
     extractComments (truncate_tree 10 (nested_thread 50)) sub postId \<and>
   (\<exists>cs. extractComments (nested_thread 50) sub postId = Inr cs \<and> length cs = 11)"
proof -
  have a: "\<And>t. extractComments t sub postId = extractComments (truncate_tree 10 t) sub postId"
    using process_truncate(1) [of sub postId 0 _ "[]"] by (simp add: extractComments_def)
  have b: "levels (truncate_tree 10 tree) \<le> 11"
    using levels_truncate [of 10 tree] by simp
  from nested_thread_walk [of sub postId 0 50 "[]"]
  have c: "\<exists>cs. extractComments (nested_thread 50) sub postId = Inr cs \<and> length cs = 11"
    by (simp add: extractComments_def)
  show ?thesis using a b c by (simp add: levels_nested_thread)
qed

theorem extract_depth_cap_witness:
  "extractComments (nested_thread 50) ''pics'' ''p1'' =
     extractComments (truncate_tree 10 (nested_thread 50)) ''pics'' ''p1'' \<and>
   levels (truncate_tree 10 (nested_thread 50)) \<le> 11 \<and>
   levels (nested_thread 50) = 50 \<and>
   (\<exists>cs. extractComments (nested_thread 50) ''pics'' ''p1'' = Inr cs \<and> length cs = 11)"
  using extract_depth_cap [of "nested_thread 50" "''pics''" "''p1''"] by blast

section \<open>The credential manager and the rate-limited client\<close>

lemma getToken_failed:
  assumes "\<not> token_valid s" and "exchange_reply w (exchanges s) = ExchangeFailed"
  shows "fst (getRedditAccessToken w s) =
           (if tokenRetryCount s < 3 then Inl AuthFailed else Inl AuthExhausted)"
    and "tokenRetryCount (snd (getRedditAccessToken w s)) =
           (if tokenRetryCount s < 3 then tokenRetryCount s + 1 else 0)"
    and "exchanges (snd (getRedditAccessToken w s)) = exchanges s + 1"
    and "gets (snd (getRedditAccessToken w s)) = gets s"
    and "trace (snd (getRedditAccessToken w s)) =
           trace s @ (if tokenRetryCount s = 0 then []
                      else [Sleep (min (1000 * 2 ^ tokenRetryCount s) 30000)]) @ [TokenExchange]"
    and "tokenRetryCount s < 3 \<Longrightarrow> \<not> token_valid (snd (getRedditAccessToken w s))"
  using assms
  by (simp_all add: getRedditAccessToken_def Let_def sleep_def backoffTime_def token_valid_def)

lemma backoff_values: "backoffTime 0 = 0" "backoffTime 1 = 2000" "backoffTime 2 = 4000"
  "backoffTime 3 = 8000" "backoffTime 4 = 16000" "backoffTime 5 = 30000"
  by (simp_all add: backoffTime_def)

lemma refresh_calls_4:
  "refresh_calls 4 w s =
     (let p1 = getRedditAccessToken w s;
          p2 = getRedditAccessToken w (snd p1);
          p3 = getRedditAccessToken w (snd p2);
          p4 = getRedditAccessToken w (snd p3)
      in ([fst p1, fst p2, fst p3, fst p4], snd p4))"
  by (simp add: eval_nat_numeral split_beta Let_def)

lemma refresh_calls_3:
  "refresh_calls 3 w s =
     (let p1 = getRedditAccessToken w s;
          p2 = getRedditAccessToken w (snd p1);
          p3 = getRedditAccessToken w (snd p2)
      in ([fst p1, fst p2, fst p3], snd p3))"
  by (simp add: eval_nat_numeral split_beta Let_def)

text \<open>
  C3, as the code has it. A failed exchange increments the failure counter. While the
  incremented counter is \<open>\<le> 3\<close> the call fails with the transient error, and the next call
  starts by waiting \<open>min (1000 * 2 ^ counter) 30000\<close> ms (nothing is waited after the
  failing exchange itself); once it exceeds 3 the counter is reset to 0 and the call
  fails with the terminal error. So a failure episode that starts with the counter at 0
  makes four exchanges: three transient failures, and a fourth attempt that fails
  terminally.
\<close>

theorem token_refresh_policy:
  assumes nv: "\<not> token_valid s"
  shows "(exchange_reply w (exchanges s) = ExchangeFailed \<longrightarrow>
            exchanges (snd (getRedditAccessToken w s)) = exchanges s + 1 \<and>
            trace (snd (getRedditAccessToken w s)) =
              trace s @ (if tokenRetryCount s = 0 then []
                         else [Sleep (min (1000 * 2 ^ tokenRetryCount s) 30000)]) @ [TokenExchange] \<and>
            (tokenRetryCount s + 1 \<le> 3 \<longrightarrow>
               fst (getRedditAccessToken w s) = Inl AuthFailed \<and>
               tokenRetryCount (snd (getRedditAccessToken w s)) = tokenRetryCount s + 1 \<and>
               \<not> token_valid (snd (getRedditAccessToken w s))) \<and>
            (tokenRetryCount s + 1 > 3 \<longrightarrow>
               fst (getRedditAccessToken w s) = Inl AuthExhausted \<and>
               tokenRetryCount (snd (getRedditAccessToken w s)) = 0)) \<and>
         (tokenRetryCount s = 0 \<and> (\<forall>i < 4. exchange_reply w (exchanges s + i) = ExchangeFailed) \<longrightarrow>
            fst (refresh_calls 3 w s) = [Inl AuthFailed, Inl AuthFailed, Inl AuthFailed] \<and>
            tokenRetryCount (snd (refresh_calls 3 w s)) = 3 \<and>
            fst (refresh_calls 4 w s) = [Inl AuthFailed, Inl AuthFailed, Inl AuthFailed, Inl AuthExhausted] \<and>
            tokenRetryCount (snd (refresh_calls 4 w s)) = 0 \<and>
            exchanges (snd (refresh_calls 4 w s)) = exchanges s + 4 \<and>
            trace (snd (refresh_calls 4 w s)) =
              trace s @ [TokenExchange, Sleep 2000, TokenExchange, Sleep 4000, TokenExchange,
                         Sleep 8000, TokenExchange])"
proof (intro conjI impI)
  assume f: "exchange_reply w (exchanges s) = ExchangeFailed"
  note g = getToken_failed [OF nv f]
  show "exchanges (snd (getRedditAccessToken w s)) = exchanges s + 1" by (rule g)
  show "trace (snd (getRedditAccessToken w s)) =
              trace s @ (if tokenRetryCount s = 0 then []
                         else [Sleep (min (1000 * 2 ^ tokenRetryCount s) 30000)]) @ [TokenExchange]"
    by (rule g)
  { assume "tokenRetryCount s + 1 \<le> 3"
    then have lt: "tokenRetryCount s < 3" by simp
    show "fst (getRedditAccessToken w s) = Inl AuthFailed" using g(1) lt by simp
    show "tokenRetryCount (snd (getRedditAccessToken w s)) = tokenRetryCount s + 1"
      using g(2) lt by simp
    show "\<not> token_valid (snd (getRedditAccessToken w s))" using g(6) lt by simp }
  { assume "tokenRetryCount s + 1 > 3"
    then have ge: "\<not> tokenRetryCount s < 3" by simp
    show "fst (getRedditAccessToken w s) = Inl AuthExhausted" using g(1) ge by simp
    show "tokenRetryCount (snd (getRedditAccessToken w s)) = 0" using g(2) ge by simp }
next
  assume a: "tokenRetryCount s = 0 \<and> (\<forall>i < 4. exchange_reply w (exchanges s + i) = ExchangeFailed)"
  define s1 where "s1 = snd (getRedditAccessToken w s)"
  define s2 where "s2 = snd (getRedditAccessToken w s1)"
  define s3 where "s3 = snd (getRedditAccessToken w s2)"
  define s4 where "s4 = snd (getRedditAccessToken w s3)"
  from a have c0: "tokenRetryCount s = 0"
    and every: "\<And>i. i < 4 \<Longrightarrow> exchange_reply w (exchanges s + i) = ExchangeFailed"
    by simp_all
  have f0: "exchange_reply w (exchanges s) = ExchangeFailed" using every [of 0] by simp
  have f1: "exchange_reply w (exchanges s + 1) = ExchangeFailed" using every [of 1] by simp
  have f2: "exchange_reply w (exchanges s + 2) = ExchangeFailed" using every [of 2] by simp
  have f3: "exchange_reply w (exchanges s + 3) = ExchangeFailed" using every [of 3] by simp
  note g1 = getToken_failed [OF nv f0, folded s1_def]
  have c1: "tokenRetryCount s1 = 1" and e1: "exchanges s1 = exchanges s + 1"
    and nv1: "\<not> token_valid s1" and r1: "fst (getRedditAccessToken w s) = Inl AuthFailed"
    and t1: "trace s1 = trace s @ [TokenExchange]"
    using g1 c0 by simp_all
  from f1 e1 have f1': "exchange_reply w (exchanges s1) = ExchangeFailed" by simp
  note g2 = getToken_failed [OF nv1 f1', folded s2_def]
  have c2: "tokenRetryCount s2 = 2" and e2: "exchanges s2 = exchanges s + 2"
    and nv2: "\<not> token_valid s2" and r2: "fst (getRedditAccessToken w s1) = Inl AuthFailed"
    and t2: "trace s2 = trace s @ [TokenExchange, Sleep 2000, TokenExchange]"
    using g2 c1 e1 t1 by simp_all
  from f2 e2 have f2': "exchange_reply w (exchanges s2) = ExchangeFailed" by simp
  note g3 = getToken_failed [OF nv2 f2', folded s3_def]
  have c3: "tokenRetryCount s3 = 3" and e3: "exchanges s3 = exchanges s + 3"
    and nv3: "\<not> token_valid s3" and r3: "fst (getRedditAccessToken w s2) = Inl AuthFailed"
    and t3: "trace s3 = trace s @ [TokenExchange, Sleep 2000, TokenExchange, Sleep 4000, TokenExchange]"
    using g3 c2 e2 t2 by simp_all
  from f3 e3 have f3': "exchange_reply w (exchanges s3) = ExchangeFailed" by simp
  note g4 = getToken_failed(1-5) [OF nv3 f3', folded s4_def]
  have c4: "tokenRetryCount s4 = 0" and e4: "exchanges s4 = exchanges s + 4"
    and r4: "fst (getRedditAccessToken w s3) = Inl AuthExhausted"
    and t4: "trace s4 = trace s @ [TokenExchange, Sleep 2000, TokenExchange, Sleep 4000,
                                   TokenExchange, Sleep 8000, TokenExchange]"
    using g4 c3 e3 t3 by simp_all
  have three: "refresh_calls 3 w s = ([Inl AuthFailed, Inl AuthFailed, Inl AuthFailed], s3)"
    using r1 r2 r3 by (simp add: refresh_calls_3 Let_def s1_def s2_def s3_def)
  have four: "refresh_calls 4 w s =
                ([Inl AuthFailed, Inl AuthFailed, Inl AuthFailed, Inl AuthExhausted], s4)"
    using r1 r2 r3 r4 by (simp add: refresh_calls_4 Let_def s1_def s2_def s3_def s4_def)
  show "fst (refresh_calls 3 w s) = [Inl AuthFailed, Inl AuthFailed, Inl AuthFailed]"
    by (simp add: three)
  show "tokenRetryCount (snd (refresh_calls 3 w s)) = 3" by (simp add: three c3)
  show "fst (refresh_calls 4 w s) = [Inl AuthFailed, Inl AuthFailed, Inl AuthFailed, Inl AuthExhausted]"
    by (simp add: four)
  show "tokenRetryCount (snd (refresh_calls 4 w s)) = 0" by (simp add: four c4)
  show "exchanges (snd (refresh_calls 4 w s)) = exchanges s + 4" by (simp add: four e4)
  show "trace (snd (refresh_calls 4 w s)) =
              trace s @ [TokenExchange, Sleep 2000, TokenExchange, Sleep 4000, TokenExchange,
                         Sleep 8000, TokenExchange]"
    by (simp add: four t4)
qed

text \<open>
  C3 as stated (at most 3 refresh attempts per failure episode) fails: when every
  exchange fails, three attempts leave the counter at 3 with transient errors only, and
  the episode ends with a fourth exchange.
\<close>

theorem token_refresh_attempts_counterexample:
  "fst (refresh_calls 4 failing_world (initial_net 0)) =
     [Inl AuthFailed, Inl AuthFailed, Inl AuthFailed, Inl AuthExhausted] \<and>
   fst (refresh_calls 3 failing_world (initial_net 0)) =
     [Inl AuthFailed, Inl AuthFailed, Inl AuthFailed] \<and>
   tokenRetryCount (snd (refresh_calls 3 failing_world (initial_net 0))) = 3 \<and>
   exchanges (snd (refresh_calls 4 failing_world (initial_net 0))) = 4 \<and>
   \<not> exchanges (snd (refresh_calls 4 failing_world (initial_net 0))) \<le> 3"
  by (simp add: refresh_calls_4 refresh_calls_3 getRedditAccessToken_def failing_world_def
        initial_net_def token_valid_def backoffTime_def sleep_def Let_def)

theorem token_refresh_policy_witness:
  "\<not> token_valid (initial_net 0) \<and>
   exchange_reply failing_world (exchanges (initial_net 0)) = ExchangeFailed \<and>
   tokenRetryCount (initial_net 0) + 1 \<le> 3 \<and>
   fst (getRedditAccessToken failing_world (initial_net 0)) = Inl AuthFailed \<and>
   tokenRetryCount (snd (getRedditAccessToken failing_world (initial_net 0))) = 1 \<and>
   fst (refresh_calls 4 failing_world (initial_net 0)) =
     [Inl AuthFailed, Inl AuthFailed, Inl AuthFailed, Inl AuthExhausted] \<and>
   tokenRetryCount (snd (refresh_calls 4 failing_world (initial_net 0))) = 0 \<and>
   trace (snd (refresh_calls 4 failing_world (initial_net 0))) =
     [TokenExchange, Sleep 2000, TokenExchange, Sleep 4000, TokenExchange, Sleep 8000, TokenExchange]"
proof -
  have nv: "\<not> token_valid (initial_net 0)"
    by (simp add: token_valid_def initial_net_def)
  have f: "\<forall>i<4. exchange_reply failing_world (exchanges (initial_net 0) + i) = ExchangeFailed"
    by (simp add: failing_world_def)
  have c: "tokenRetryCount (initial_net 0) = 0" "trace (initial_net 0) = []"
    by (simp_all add: initial_net_def)
  have f0: "exchange_reply failing_world (exchanges (initial_net 0)) = ExchangeFailed"
    by (simp add: failing_world_def)
  from token_refresh_policy [OF nv, of failing_world] f f0 c
  show ?thesis using nv by simp
qed

lemma getToken_gets: "gets (snd (getRedditAccessToken w s)) = gets s"
  by (simp add: getRedditAccessToken_def Let_def sleep_def split: exchange_result.splits)

lemma getToken_trace: "\<exists>evs. trace (snd (getRedditAccessToken w s)) = trace s @ evs"
  by (simp add: getRedditAccessToken_def Let_def sleep_def split: exchange_result.splits)

lemma request_gets:
  "gets (snd (redditApiRequest w url attempt s)) \<le> gets s + 1 + (maxAttempts - attempt)"
proof (induction w url attempt s rule: redditApiRequest.induct)
  case (1 w url attempt s)
  obtain r s1 where g: "getRedditAccessToken w s = (r, s1)" by (cases "getRedditAccessToken w s")
  from getToken_gets [of w s] g have g1: "gets s1 = gets s" by simp
  show ?case
  proof (cases r)
    case (Inl e)
    with g g1 show ?thesis by (subst redditApiRequest.simps) simp
  next
    case (Inr token)
    let ?s2 = "s1\<lparr>clock := clock s1 + api_latency w (gets s1), gets := gets s1 + 1,
                    trace := trace s1 @ [ApiGet url]\<rparr>"
    show ?thesis
    proof (cases "api_reply w (gets s1) url")
      case (Data d)
      with g Inr g1 show ?thesis by (subst redditApiRequest.simps) simp
    next
      case NoResponse
      with g Inr g1 show ?thesis by (subst redditApiRequest.simps) simp
    next
      case (Status st)
      show ?thesis
      proof (cases "attempt < maxAttempts")
        case False
        with g Inr g1 Status show ?thesis by (subst redditApiRequest.simps) (simp add: Let_def)
      next
        case True
        note ih1 = "1.IH"(1) [OF g [symmetric] Inr refl Status _ True]
        note ih2 = "1.IH"(2) [OF g [symmetric] Inr refl Status _ _ refl True]
        consider "st = 429" | "st \<noteq> 429" "st = 401" | "st \<noteq> 429" "st \<noteq> 401" by blast
        then show ?thesis
        proof cases
          case 1
          from ih1 [OF 1] True g1
          have "gets (snd (redditApiRequest w url (attempt + 1) (sleep (2 ^ attempt * 1000) ?s2)))
                  \<le> gets s + 1 + (maxAttempts - attempt)"
            by (simp add: sleep_def)
          with g Inr Status 1 True show ?thesis
            by (subst redditApiRequest.simps) (simp add: Let_def)
        next
          case 2
          from ih2 [OF 2] True g1
          have "gets (snd (redditApiRequest w url (attempt + 1)
                             (?s2\<lparr>accessToken := None, tokenExpiration := 0\<rparr>)))
                  \<le> gets s + 1 + (maxAttempts - attempt)"
            by simp
          with g Inr Status 2 True show ?thesis
            by (subst redditApiRequest.simps) (simp add: Let_def)
        next
          case 3
          with g Inr g1 Status show ?thesis by (subst redditApiRequest.simps) (simp add: Let_def)
        qed
      qed
    qed
  qed
qed

text \<open>
  C9. A request started with the default \<^verbatim>\<open>attempt = 1\<close> issues at most 3 API calls. On a
  429 with \<^verbatim>\<open>attempt < 3\<close> it waits \<open>2 ^ attempt * 1000\<close> ms and continues as the request
  with \<^verbatim>\<open>attempt + 1\<close>; on a 429 with no attempt left it fails with the rate-limit error,
  and the rejected call is the last event of the trace.
\<close>

theorem request_attempts:
  "gets (snd (redditApiRequest w url 1 s)) \<le> gets s + 3 \<and>
   (getRedditAccessToken w s = (Inr token, s1) \<and> api_reply w (gets s1) url = Status 429 \<longrightarrow>
      (attempt < 3 \<longrightarrow>
         redditApiRequest w url attempt s =
           redditApiRequest w url (attempt + 1)
             (sleep (2 ^ attempt * 1000)
                (s1\<lparr>clock := clock s1 + api_latency w (gets s1), gets := gets s1 + 1,
                     trace := trace s1 @ [ApiGet url]\<rparr>)) \<and>
         trace (sleep (2 ^ attempt * 1000)
                (s1\<lparr>clock := clock s1 + api_latency w (gets s1), gets := gets s1 + 1,
                     trace := trace s1 @ [ApiGet url]\<rparr>)) =
           trace s1 @ [ApiGet url, Sleep (2 ^ attempt * 1000)]) \<and>
      (\<not> attempt < 3 \<longrightarrow>
         redditApiRequest w url attempt s =
           (Inl RateLimited,
            s1\<lparr>clock := clock s1 + api_latency w (gets s1), gets := gets s1 + 1,
                trace := trace s1 @ [ApiGet url]\<rparr>) \<and>
         gets (snd (redditApiRequest w url attempt s)) = gets s + 1 \<and>
         trace (snd (redditApiRequest w url attempt s)) = trace s1 @ [ApiGet url]))"
proof (intro conjI impI)
  show "gets (snd (redditApiRequest w url 1 s)) \<le> gets s + 3"
    using request_gets [of w url 1 s] by (simp add: maxAttempts_def)
next
  assume a: "getRedditAccessToken w s = (Inr token, s1) \<and> api_reply w (gets s1) url = Status 429"
  from getToken_gets [of w s] a have g1: "gets s1 = gets s" by simp
  { assume "attempt < 3"
    with a show "redditApiRequest w url attempt s =
           redditApiRequest w url (attempt + 1)
             (sleep (2 ^ attempt * 1000)
                (s1\<lparr>clock := clock s1 + api_latency w (gets s1), gets := gets s1 + 1,
                     trace := trace s1 @ [ApiGet url]\<rparr>))"
      by (subst redditApiRequest.simps) (simp add: maxAttempts_def Let_def)
    show "trace (sleep (2 ^ attempt * 1000)
                (s1\<lparr>clock := clock s1 + api_latency w (gets s1), gets := gets s1 + 1,
                     trace := trace s1 @ [ApiGet url]\<rparr>)) =
           trace s1 @ [ApiGet url, Sleep (2 ^ attempt * 1000)]"
      by (simp add: sleep_def) }
  { assume "\<not> attempt < 3"
    with a have r: "redditApiRequest w url attempt s =
           (Inl RateLimited,
            s1\<lparr>clock := clock s1 + api_latency w (gets s1), gets := gets s1 + 1,
                trace := trace s1 @ [ApiGet url]\<rparr>)"
      by (subst redditApiRequest.simps) (simp add: maxAttempts_def Let_def)
    then show "redditApiRequest w url attempt s =
           (Inl RateLimited,
            s1\<lparr>clock := clock s1 + api_latency w (gets s1), gets := gets s1 + 1,
                trace := trace s1 @ [ApiGet url]\<rparr>)" .
    from r g1 show "gets (snd (redditApiRequest w url attempt s)) = gets s + 1" by simp
    from r show "trace (snd (redditApiRequest w url attempt s)) = trace s1 @ [ApiGet url]" by simp }
qed

lemma limited_run:
  "redditApiRequest limited_world ''u'' 1 (initial_net 0) =
     (Inl RateLimited,
      \<lparr>accessToken = Some ''tok'', tokenExpiration = 3540100, tokenRetryCount = 0,
       clock = 6400, exchanges = 1, gets = 3,
       trace = [TokenExchange, ApiGet ''u'', Sleep 2000, ApiGet ''u'', Sleep 4000, ApiGet ''u'']\<rparr>)"
  by (simp add: redditApiRequest.simps [of limited_world] getRedditAccessToken_def limited_world_def
        initial_net_def token_valid_def backoffTime_def sleep_def Let_def maxAttempts_def)

lemma limited_token: "getRedditAccessToken limited_world (initial_net 0) = (Inr ''tok'', net_with_token)"
  by (simp add: getRedditAccessToken_def limited_world_def initial_net_def token_valid_def
        backoffTime_def Let_def net_with_token_def)

theorem request_attempts_witness:
  "getRedditAccessToken limited_world (initial_net 0) = (Inr ''tok'', net_with_token) \<and>
   api_reply limited_world (gets net_with_token) ''u'' = Status 429 \<and>
   (1::nat) < 3 \<and>
   gets (snd (redditApiRequest limited_world ''u'' 1 (initial_net 0))) \<le> gets (initial_net 0) + 3 \<and>
   redditApiRequest limited_world ''u'' 1 (initial_net 0) =
     redditApiRequest limited_world ''u'' (1 + 1)
       (sleep (2 ^ 1 * 1000)
          (net_with_token\<lparr>clock := clock net_with_token + api_latency limited_world (gets net_with_token),
                           gets := gets net_with_token + 1,
                           trace := trace net_with_token @ [ApiGet ''u'']\<rparr>)) \<and>
   redditApiRequest limited_world ''u'' 1 (initial_net 0) =
     (Inl RateLimited,
      \<lparr>accessToken = Some ''tok'', tokenExpiration = 3540100, tokenRetryCount = 0,
       clock = 6400, exchanges = 1, gets = 3,
       trace = [TokenExchange, ApiGet ''u'', Sleep 2000, ApiGet ''u'', Sleep 4000, ApiGet ''u'']\<rparr>)"
proof -
  have r: "api_reply limited_world (gets net_with_token) ''u'' = Status 429"
    by (simp add: limited_world_def)
  from request_attempts [of limited_world "''u''" "initial_net 0" "''tok''" net_with_token 1]
       limited_token r limited_run
  show ?thesis by simp
qed

section \<open>Scoring and the exact-phrase bonus\<close>

lemma log10_mono: "a \<le> b \<Longrightarrow> \<not> jless (log10 b) (log10 a)"
  by (auto simp: log10_def)

lemma jscale_mono: "0 < k \<Longrightarrow> \<not> jless y x \<Longrightarrow> \<not> jless (jscale y k) (jscale x k)"
  by (cases x; cases y) auto

lemma jadd_mono_left: "\<not> jless y x \<Longrightarrow> \<not> jless (jadd y z) (jadd x z)"
  by (cases x; cases y; cases z) auto

lemma jadd_mono_right: "\<not> jless y x \<Longrightarrow> \<not> jless (jadd z y) (jadd z x)"
  by (cases x; cases y; cases z) auto

lemma base_upvotes_mono:
  assumes "u1 \<le> u2"
  shows "\<not> jless (calculateBaseScore (c\<lparr>upvotes := u2\<rparr>) now)
                (calculateBaseScore (c\<lparr>upvotes := u1\<rparr>) now)"
proof -
  from assms have "\<not> jless (log10 (u2 + 1)) (log10 (u1 + 1))"
    by (intro log10_mono) simp
  then have "\<not> jless (jscale (log10 (u2 + 1)) 2) (jscale (log10 (u1 + 1)) 2)"
    by (intro jscale_mono) simp_all
  then have "\<not> jless (jadd (jscale (log10 (u2 + 1)) 2) (jscale (log10 (int_or0 (awards c) + 1)) 3))
                    (jadd (jscale (log10 (u1 + 1)) 2) (jscale (log10 (int_or0 (awards c) + 1)) 3))"
    by (rule jadd_mono_left)
  then have "\<not> jless (jadd (jadd (jscale (log10 (u2 + 1)) 2) (jscale (log10 (int_or0 (awards c) + 1)) 3))
                          (Fin (calculateRecencyScore (timestamp c) now)))
                    (jadd (jadd (jscale (log10 (u1 + 1)) 2) (jscale (log10 (int_or0 (awards c) + 1)) 3))
                          (Fin (calculateRecencyScore (timestamp c) now)))"
    by (rule jadd_mono_left)
  then show ?thesis by (simp add: calculateBaseScore_def Let_def)
qed

lemma base_awards_mono:
  assumes "a1 \<le> a2"
  shows "\<not> jless (calculateBaseScore (c\<lparr>awards := Some a2\<rparr>) now)
                (calculateBaseScore (c\<lparr>awards := Some a1\<rparr>) now)"
proof -
  from assms have "\<not> jless (log10 (a2 + 1)) (log10 (a1 + 1))"
    by (intro log10_mono) simp
  then have "\<not> jless (jscale (log10 (a2 + 1)) 3) (jscale (log10 (a1 + 1)) 3)"
    by (intro jscale_mono) simp_all
  then have "\<not> jless (jadd (jscale (log10 (upvotes c + 1)) 2) (jscale (log10 (a2 + 1)) 3))
                    (jadd (jscale (log10 (upvotes c + 1)) 2) (jscale (log10 (a1 + 1)) 3))"
    by (rule jadd_mono_right)
  then have "\<not> jless (jadd (jadd (jscale (log10 (upvotes c + 1)) 2) (jscale (log10 (a2 + 1)) 3))
                          (Fin (calculateRecencyScore (timestamp c) now)))
                    (jadd (jadd (jscale (log10 (upvotes c + 1)) 2) (jscale (log10 (a1 + 1)) 3))
                          (Fin (calculateRecencyScore (timestamp c) now)))"
    by (rule jadd_mono_left)
  then show ?thesis by (simp add: calculateBaseScore_def Let_def int_or0_def)
qed

lemma base_formula:
  "0 \<le> upvotes c \<Longrightarrow> 0 \<le> int_or0 (awards c) \<Longrightarrow>
   calculateBaseScore c now =
     Fin (log 10 (real_of_int (upvotes c + 1)) * 2 + log 10 (real_of_int (int_or0 (awards c) + 1)) * 3
          + calculateRecencyScore (timestamp c) now)"
  by (simp add: calculateBaseScore_def log10_def Let_def)

lemma score_formula:
  "0 \<le> upvotes c \<Longrightarrow> 0 \<le> int_or0 (awards c) \<Longrightarrow> 0 \<le> m \<Longrightarrow>
   calculateScore c m now =
     Fin (log 10 (real_of_int (upvotes c + 1)) * 2 + log 10 (real_of_int (int_or0 (awards c) + 1)) * 3
          + calculateRecencyScore (timestamp c) now + log 10 (real_of_int (m + 1)) * 5)"
  by (simp add: calculateScore_def base_formula log10_def Let_def)

lemma recency_formula:
  "calculateRecencyScore ts now =
     (if real_of_int (now - ts) / 3600000 < 24 then 5 * (1 - (real_of_int (now - ts) / 3600000) / 24) else 0)"
  by (simp add: calculateRecencyScore_def Let_def)

text \<open>
  C7. Of two comments that differ only in their upvotes (or only in their awards),
  scored at the same time \<open>now\<close> with the same match count, the one with more upvotes
  (awards) never has the smaller score: \<^verbatim>\<open>larger.score < smaller.score\<close> is false, for
  \<open>calculateBaseScore\<close> and for \<open>calculateScore\<close>. For non-negative counts the scores
  are the sums the claim gives. Numbers are idealised: reals where JavaScript has finite
  doubles, with \<^verbatim>\<open>NaN\<close> and \<^verbatim>\<open>-Infinity\<close> for the logarithm of a negative number and
  of zero.
\<close>

theorem score_monotone:
  "(u1 \<le> u2 \<longrightarrow>
      \<not> jless (calculateBaseScore (c\<lparr>upvotes := u2\<rparr>) now) (calculateBaseScore (c\<lparr>upvotes := u1\<rparr>) now) \<and>
      \<not> jless (calculateScore (c\<lparr>upvotes := u2\<rparr>) m now) (calculateScore (c\<lparr>upvotes := u1\<rparr>) m now)) \<and>
   (a1 \<le> a2 \<longrightarrow>
      \<not> jless (calculateBaseScore (c\<lparr>awards := Some a2\<rparr>) now) (calculateBaseScore (c\<lparr>awards := Some a1\<rparr>) now) \<and>
      \<not> jless (calculateScore (c\<lparr>awards := Some a2\<rparr>) m now) (calculateScore (c\<lparr>awards := Some a1\<rparr>) m now)) \<and>
   (0 \<le> upvotes c \<and> 0 \<le> int_or0 (awards c) \<and> 0 \<le> m \<longrightarrow>
      calculateBaseScore c now =
        Fin (log 10 (real_of_int (upvotes c + 1)) * 2 + log 10 (real_of_int (int_or0 (awards c) + 1)) * 3
             + calculateRecencyScore (timestamp c) now) \<and>
      calculateScore c m now =
        Fin (log 10 (real_of_int (upvotes c + 1)) * 2 + log 10 (real_of_int (int_or0 (awards c) + 1)) * 3
             + calculateRecencyScore (timestamp c) now + log 10 (real_of_int (m + 1)) * 5))"
proof (intro conjI impI)
  assume u: "u1 \<le> u2"
  then show "\<not> jless (calculateBaseScore (c\<lparr>upvotes := u2\<rparr>) now) (calculateBaseScore (c\<lparr>upvotes := u1\<rparr>) now)"
    by (rule base_upvotes_mono)
  then show "\<not> jless (calculateScore (c\<lparr>upvotes := u2\<rparr>) m now) (calculateScore (c\<lparr>upvotes := u1\<rparr>) m now)"
    unfolding calculateScore_def Let_def by (rule jadd_mono_left)
next
  assume a: "a1 \<le> a2"
  then show "\<not> jless (calculateBaseScore (c\<lparr>awards := Some a2\<rparr>) now) (calculateBaseScore (c\<lparr>awards := Some a1\<rparr>) now)"
    by (rule base_awards_mono)
  then show "\<not> jless (calculateScore (c\<lparr>awards := Some a2\<rparr>) m now) (calculateScore (c\<lparr>awards := Some a1\<rparr>) m now)"
    unfolding calculateScore_def Let_def by (rule jadd_mono_left)
next
  assume "0 \<le> upvotes c \<and> 0 \<le> int_or0 (awards c) \<and> 0 \<le> m"
  then show "calculateBaseScore c now =
        Fin (log 10 (real_of_int (upvotes c + 1)) * 2 + log 10 (real_of_int (int_or0 (awards c) + 1)) * 3
             + calculateRecencyScore (timestamp c) now)"
    "calculateScore c m now =
        Fin (log 10 (real_of_int (upvotes c + 1)) * 2 + log 10 (real_of_int (int_or0 (awards c) + 1)) * 3
             + calculateRecencyScore (timestamp c) now + log 10 (real_of_int (m + 1)) * 5)"
    by (simp_all add: base_formula score_formula)
qed

theorem score_monotone_witness:
  "(7::int) \<le> 70 \<and>
   \<not> jless (calculateBaseScore (comment0\<lparr>upvotes := 70\<rparr>) 3600000)
            (calculateBaseScore (comment0\<lparr>upvotes := 7\<rparr>) 3600000) \<and>
   \<not> jless (calculateScore (comment0\<lparr>upvotes := 70\<rparr>) 4 3600000)
            (calculateScore (comment0\<lparr>upvotes := 7\<rparr>) 4 3600000) \<and>
   (1::int) \<le> 3 \<and>
   \<not> jless (calculateBaseScore (comment0\<lparr>awards := Some 3\<rparr>) 3600000)
            (calculateBaseScore (comment0\<lparr>awards := Some 1\<rparr>) 3600000) \<and>
   \<not> jless (calculateScore (comment0\<lparr>awards := Some 3\<rparr>) 4 3600000)
            (calculateScore (comment0\<lparr>awards := Some 1\<rparr>) 4 3600000) \<and>
   0 \<le> upvotes comment0 \<and> 0 \<le> int_or0 (awards comment0) \<and> (0::int) \<le> 4 \<and>
   calculateBaseScore comment0 3600000 =
     Fin (log 10 (real_of_int (upvotes comment0 + 1)) * 2
          + log 10 (real_of_int (int_or0 (awards comment0) + 1)) * 3
          + calculateRecencyScore (timestamp comment0) 3600000)"
proof -
  have h: "0 \<le> upvotes comment0 \<and> 0 \<le> int_or0 (awards comment0) \<and> (0::int) \<le> 4"
    by (simp add: comment0_def int_or0_def)
  from score_monotone [of 7 70 comment0 3600000 4 1 3] h
  show ?thesis by simp
qed

lemma startsWith_iff: "startsWith s t \<longleftrightarrow> (\<exists>post. s = t @ post)"
proof
  assume "startsWith s t"
  then have "s = t @ drop (length t) s"
    by (metis append_take_drop_id startsWith_def)
  then show "\<exists>post. s = t @ post" ..
next
  assume "\<exists>post. s = t @ post"
  then show "startsWith s t" by (auto simp: startsWith_def)
qed

lemma includes_str_iff: "includes_str s t \<longleftrightarrow> (\<exists>pre post. s = pre @ t @ post)"
proof (induction s)
  case Nil
  then show ?case by simp
next
  case (Cons ch s)
  show ?case
  proof
    assume "includes_str (ch # s) t"
    then consider "startsWith (ch # s) t" | "includes_str s t" by auto
    then show "\<exists>pre post. ch # s = pre @ t @ post"
    proof cases
      case 1
      then obtain post where "ch # s = t @ post" by (auto simp: startsWith_iff)
      then have "ch # s = [] @ t @ post" by simp
      then show ?thesis by blast
    next
      case 2
      with Cons.IH obtain pre post where "s = pre @ t @ post" by blast
      then have "ch # s = (ch # pre) @ t @ post" by simp
      then show ?thesis by blast
    qed
  next
    assume "\<exists>pre post. ch # s = pre @ t @ post"
    then obtain pre post where e: "ch # s = pre @ t @ post" by blast
    show "includes_str (ch # s) t"
    proof (cases pre)
      case Nil
      with e have "startsWith (ch # s) t" by (auto simp: startsWith_iff)
      then show ?thesis by simp
    next
      case (Cons a pre')
      with e have "s = pre' @ t @ post" by simp
      with Cons.IH have "includes_str s t" by blast
      then show ?thesis by simp
    qed
  qed
qed

lemma remove_duplicates_single: "remove_duplicates [c] = [c]"
  by (simp add: remove_duplicates_def findIndex_def)

lemma sort_comments_single: "sort_comments k [c] = [c]"
  by (simp add: sort_comments_def js_sort_def)

lemma sort_comments_Nil: "sort_comments k [] = []"
  by (simp add: sort_comments_def js_sort_def)

lemma remove_duplicates_Nil: "remove_duplicates [] = []"
  by (simp add: remove_duplicates_def)

lemma process_all_single:
  assumes "minUp \<le> upvotes c" and "regexes \<noteq> []"
  shows "processCommentsWithSearchTerms clk [c] regexes regexes ''all'' q sortKey minUp =
           (if finalMatchCount regexes q c > 0
            then [with_match clk 0 (finalMatchCount regexes q c) c] else [])"
  using assms
  by (simp add: processCommentsWithSearchTerms_def filter_mapi_def List.map_filter_def Let_def
        remove_duplicates_single sort_comments_single sort_comments_Nil remove_duplicates_Nil)

text \<open>
  C8, as the code has it. In the \<^verbatim>\<open>all\<close> filter with at least one search term the final
  match count is the sum over the terms plus the exact-phrase bonus, and the bonus is 10
  exactly when the query as passed (not trimmed) is longer than 3 characters and its
  lower-cased form occurs in the lower-cased body; otherwise it is 0. For a query
  without leading or trailing white space this is the claim's condition on the trimmed
  query.
\<close>

theorem exact_phrase_bonus:
  "finalMatchCount regexes q c = all_matchCount regexes c + exactPhraseBonus q c \<and>
   (exactPhraseBonus q c = 10 \<longleftrightarrow>
      length q > 3 \<and> (\<exists>pre post. toLowerCase (body c) = pre @ toLowerCase q @ post)) \<and>
   (exactPhraseBonus q c = 0 \<longleftrightarrow>
      \<not> (length q > 3 \<and> (\<exists>pre post. toLowerCase (body c) = pre @ toLowerCase q @ post))) \<and>
   (trim q = q \<longrightarrow>
      (exactPhraseBonus q c = 10 \<longleftrightarrow>
         length (trim q) > 3 \<and> (\<exists>pre post. toLowerCase (body c) = pre @ toLowerCase (trim q) @ post))) \<and>
   (minUp \<le> upvotes c \<and> regexes \<noteq> [] \<longrightarrow>
      processCommentsWithSearchTerms clk [c] regexes regexes ''all'' q sortKey minUp =
        (if all_matchCount regexes c + exactPhraseBonus q c > 0
         then [with_match clk 0 (all_matchCount regexes c + exactPhraseBonus q c) c] else []))"
proof (intro conjI impI)
  show "finalMatchCount regexes q c = all_matchCount regexes c + exactPhraseBonus q c"
    by (simp add: finalMatchCount_def)
  show b10: "exactPhraseBonus q c = 10 \<longleftrightarrow>
      length q > 3 \<and> (\<exists>pre post. toLowerCase (body c) = pre @ toLowerCase q @ post)"
    by (simp add: exactPhraseBonus_def Let_def includes_str_iff)
  show "exactPhraseBonus q c = 0 \<longleftrightarrow>
      \<not> (length q > 3 \<and> (\<exists>pre post. toLowerCase (body c) = pre @ toLowerCase q @ post))"
    by (simp add: exactPhraseBonus_def Let_def includes_str_iff)
  { assume "trim q = q"
    with b10 show "exactPhraseBonus q c = 10 \<longleftrightarrow>
         length (trim q) > 3 \<and> (\<exists>pre post. toLowerCase (body c) = pre @ toLowerCase (trim q) @ post)"
      by simp }
  { assume "minUp \<le> upvotes c \<and> regexes \<noteq> []"
    then show "processCommentsWithSearchTerms clk [c] regexes regexes ''all'' q sortKey minUp =
        (if all_matchCount regexes c + exactPhraseBonus q c > 0
         then [with_match clk 0 (all_matchCount regexes c + exactPhraseBonus q c) c] else [])"
      using process_all_single [of minUp c regexes clk q sortKey]
      by (simp add: finalMatchCount_def) }
qed

lemma lower_examples:
  "toLowerCase ''It is OK now'' = ''it is ok now''"
  "toLowerCase '' ok '' = '' ok ''"
  "toLowerCase ''I love Rust'' = ''i love rust''"
  "toLowerCase ''rust '' = ''rust ''"
  "toLowerCase ''ok'' = ''ok''"
  "toLowerCase ''rust'' = ''rust''"
  "toLowerCase ''bob'' = ''bob''"
  "toLowerCase ''pics'' = ''pics''"
  by (simp_all add: toLowerCase_def toLowerCase_char_def)

lemma trim_examples: "trim '' ok '' = ''ok''" "trim ''rust '' = ''rust''"
  by (simp_all add: trim_def is_space_def)

lemma terms_examples: "searchTerms_of '' ok '' = [''ok'']" "searchTerms_of ''rust '' = [''rust'']"
  by (simp_all add: searchTerms_of_def lower_examples trim_examples split_ws_def is_space_def)

text \<open>
  C8 as stated (the condition is on the trimmed query) fails in both directions: the
  query \<open>" ok "\<close> trims to two characters, yet the bonus is added to a body that
  contains \<open>" ok "\<close>; the query \<open>"rust "\<close> trims to \<open>"rust"\<close>, which the body
  contains, yet no bonus is added because the body does not contain \<open>"rust "\<close>.
\<close>

theorem exact_phrase_trimmed_counterexample:
  "searchTerms_of '' ok '' = [''ok''] \<and>
   exactPhraseBonus '' ok '' comment0 = 10 \<and>
   \<not> length (trim '' ok '') > 3 \<and>
   all_matchCount [''ok''] comment0 = 1 \<and>
   finalMatchCount [''ok''] '' ok '' comment0 = 11 \<and>
   searchTerms_of ''rust '' = [''rust''] \<and>
   exactPhraseBonus ''rust '' comment1 = 0 \<and>
   length (trim ''rust '') > 3 \<and>
   includes_str (toLowerCase (body comment1)) (toLowerCase (trim ''rust ''))"
proof -
  have m: "all_matchCount [''ok''] comment0 = 1"
    by (simp add: comment0_def all_matchCount_def term_matchCount_def match_count_def match_at_def
          regex_test_def Let_def toLowerCase_def toLowerCase_char_def)
  have b0: "exactPhraseBonus '' ok '' comment0 = 10"
    by (simp add: exactPhraseBonus_def comment0_def lower_examples startsWith_def)
  have b1: "exactPhraseBonus ''rust '' comment1 = 0"
    by (simp add: exactPhraseBonus_def comment1_def lower_examples startsWith_def)
  have i1: "includes_str (toLowerCase (body comment1)) (toLowerCase (trim ''rust ''))"
    by (simp add: comment1_def trim_examples lower_examples startsWith_def)
  show ?thesis
    using m b0 b1 i1 by (simp add: terms_examples trim_examples finalMatchCount_def)
qed

theorem exact_phrase_bonus_witness:
  "trim ''is ok'' = ''is ok'' \<and>
   5 \<le> upvotes comment0 \<and>
   length (trim ''is ok'') > 3 \<and>
   exactPhraseBonus ''is ok'' comment0 = 10 \<and>
   finalMatchCount [''is'', ''ok''] ''is ok'' comment0 = all_matchCount [''is'', ''ok''] comment0 + 10 \<and>
   processCommentsWithSearchTerms (\<lambda>i. 0) [comment0] [''is'', ''ok''] [''is'', ''ok''] ''all''
       ''is ok'' ''relevance'' 5 =
     [with_match (\<lambda>i. 0) 0 (all_matchCount [''is'', ''ok''] comment0 + 10) comment0]"
proof -
  have t: "trim ''is ok'' = ''is ok''"
    by (simp add: trim_def is_space_def)
  have u: "5 \<le> upvotes comment0 \<and> [''is'', ''ok''] \<noteq> []"
    by (simp add: comment0_def)
  have l: "toLowerCase ''is ok'' = ''is ok''"
    by (simp add: toLowerCase_def toLowerCase_char_def)
  have b: "exactPhraseBonus ''is ok'' comment0 = 10"
    by (simp add: exactPhraseBonus_def comment0_def lower_examples l startsWith_def)
  from exact_phrase_bonus [of "[''is'', ''ok'']" "''is ok''" comment0 5 "\<lambda>i. 0" "''relevance''"] t u b
  show ?thesis by simp
qed

section \<open>The search pipeline\<close>

lemma remove_duplicates_distinct: "distinct (map id_c (remove_duplicates self))"
proof -
  let ?keep = "\<lambda>(i, c). int i = findIndex (\<lambda>d. id_c d = id_c c) self"
  let ?kept = "filter ?keep (enumerate 0 self)"
  have d: "distinct ?kept"
    by (simp add: distinct_enumerate)
  have inj: "inj_on (id_c \<circ> snd) (set ?kept)"
  proof (rule inj_onI)
    fix a b
    assume a: "a \<in> set ?kept" and b: "b \<in> set ?kept" and e: "(id_c \<circ> snd) a = (id_c \<circ> snd) b"
    obtain i c where ac: "a = (i, c)" by (cases a)
    obtain j c' where bc: "b = (j, c')" by (cases b)
    from e ac bc have ids: "id_c c = id_c c'" by simp
    from a ac have i: "int i = findIndex (\<lambda>d. id_c d = id_c c) self"
      and ic: "i < length self" "c = self ! i"
      by (auto simp: in_set_enumerate_eq)
    from b bc have j: "int j = findIndex (\<lambda>d. id_c d = id_c c') self"
      and jc: "j < length self" "c' = self ! j"
      by (auto simp: in_set_enumerate_eq)
    from i j ids have "i = j" by simp
    with ic jc ac bc show "a = b" by simp
  qed
  have "map id_c (remove_duplicates self) = map (id_c \<circ> snd) ?kept"
    by (simp add: remove_duplicates_def)
  with d inj show ?thesis by (simp add: distinct_map)
qed

lemma findIndex_from_first:
  "\<exists>x \<in> set xs. p x \<Longrightarrow>
   \<exists>j < length xs. findIndex_from i p xs = int (i + j) \<and> p (xs ! j)"
proof (induction xs arbitrary: i)
  case Nil
  then show ?case by simp
next
  case (Cons x xs)
  show ?case
  proof (cases "p x")
    case True
    then show ?thesis by (intro exI [of _ 0]) simp
  next
    case False
    with Cons.prems have "\<exists>x \<in> set xs. p x" by auto
    from Cons.IH [OF this, of "Suc i"] obtain j where
      "j < length xs" "findIndex_from (Suc i) p xs = int (Suc i + j)" "p (xs ! j)" by blast
    with False show ?thesis by (intro exI [of _ "Suc j"]) simp
  qed
qed

lemma remove_duplicates_ids: "id_c ` set (remove_duplicates self) = id_c ` set self"
proof
  show "id_c ` set (remove_duplicates self) \<subseteq> id_c ` set self"
    by (auto simp: remove_duplicates_def in_set_enumerate_eq)
next
  show "id_c ` set self \<subseteq> id_c ` set (remove_duplicates self)"
  proof
    fix k assume "k \<in> id_c ` set self"
    then obtain c where c: "c \<in> set self" "id_c c = k" by auto
    then have "\<exists>x \<in> set self. id_c x = id_c c" by auto
    from findIndex_from_first [OF this, of 0] obtain j where
      j: "j < length self" "findIndex (\<lambda>d. id_c d = id_c c) self = int j" "id_c (self ! j) = id_c c"
      by (auto simp: findIndex_def)
    have "(\<lambda>d. id_c d = id_c (self ! j)) = (\<lambda>d. id_c d = id_c c)" using j(3) by simp
    with j have "(j, self ! j) \<in> set (filter (\<lambda>(i, c). int i = findIndex (\<lambda>d. id_c d = id_c c) self)
                                           (enumerate 0 self))"
      by (simp add: in_set_enumerate_eq)
    then have "self ! j \<in> set (remove_duplicates self)"
      by (force simp: remove_duplicates_def)
    then have "id_c (self ! j) \<in> id_c ` set (remove_duplicates self)" by (rule imageI)
    with j(3) c(2) show "k \<in> id_c ` set (remove_duplicates self)" by simp
  qed
qed

lemma merge_comment_present:
  "id_c c \<in> id_c ` set allComments \<Longrightarrow> merge_comment allComments c = allComments"
  by (auto simp: merge_comment_def list_ex_iff)

lemma merge_comment_distinct:
  "distinct (map id_c allComments) \<Longrightarrow> distinct (map id_c (merge_comment allComments c))"
  by (auto simp: merge_comment_def list_ex_iff)

lemma merge_batch_distinct:
  "distinct (map id_c allComments) \<Longrightarrow> distinct (map id_c (merge_batch allComments batch))"
  unfolding merge_batch_def
  by (induction batch arbitrary: allComments) (simp_all add: merge_comment_distinct)

lemma merge_batches_distinct:
  "distinct (map id_c allComments) \<Longrightarrow> distinct (map id_c (foldl merge_batch allComments bs))"
  by (induction bs arbitrary: allComments) (simp_all add: merge_batch_distinct)

lemma merge_search_distinct:
  "distinct (map id_c allComments) \<Longrightarrow> distinct (map id_c (merge_search allComments items))"
proof (induction allComments items rule: merge_search.induct)
  case (1 allComments)
  then show ?case by simp
next
  case (2 allComments k rest)
  then show ?case by simp
next
  case (3 allComments k d replies rest)
  show ?case
  proof (cases "k \<noteq> ''t1'' \<or> is_removed d \<or> list_ex (\<lambda>c. id_c c = r_id d) allComments")
    case True
    with 3 show ?thesis by auto
  next
    case False
    show ?thesis
    proof (cases "toISOString (r_created_utc d)")
      case (Inl e)
      with False "3.prems" show ?thesis by simp
    next
      case (Inr ts)
      from False have "r_id d \<notin> id_c ` set allComments" by (auto simp: list_ex_iff)
      with "3.prems" have "distinct (map id_c (allComments @ [search_comment d ts]))"
        by (simp add: search_comment_def)
      with "3.IH"(4) [OF _ _ _ Inr] False Inr show ?thesis by simp
    qed
  qed
qed

lemma collect_comments_distinct: "distinct (map id_c (collect_comments h searchTerms lmt))"
  by (simp add: collect_comments_def Let_def merge_batches_distinct merge_search_distinct
      split: option.splits)

lemma js_slice_distinct: "distinct (map f xs) \<Longrightarrow> distinct (map f (js_slice a b xs))"
proof -
  assume "distinct (map f xs)"
  then have "distinct (take n (drop k (map f xs)))" for n k
    by (intro distinct_take distinct_drop)
  then show ?thesis by (simp add: js_slice_def Let_def take_map drop_map)
qed

lemma mockComments_distinct: "distinct (map id_c (mockComments loaded))"
  by (simp add: mockComments_def)

lemma processed_distinct:
  "distinct (map id_c (processCommentsWithSearchTerms clk cs ts rs f q k m))"
  by (simp add: processCommentsWithSearchTerms_def Let_def remove_duplicates_distinct)

lemma set_update_subset: "set (AList.update k v al) \<subseteq> insert (k, v) (set al)"
  by (induction al) auto

lemma set_delete_subset: "set (AList.delete k al) \<subseteq> set al"
  by (auto simp: AList.delete_eq)

lemma SearchCache_get_entries:
  "SearchCache_get c key now = (r, c1) \<Longrightarrow>
     set (cache c1) \<subseteq> set (cache c) \<and> maxSize c1 = maxSize c \<and> ttl c1 = ttl c \<and>
     (\<forall>rs. r = Some rs \<longrightarrow> c1 = c \<and> (\<exists>e. (key, e) \<in> set (cache c) \<and> entry_results e = rs))"
  using set_delete_subset [of key "cache c"]
  by (auto simp: SearchCache_get_def split: option.splits if_splits dest: map_of_SomeD)

lemma SearchCache_set_entries:
  "SearchCache_set c key rs now = Inr c2 \<Longrightarrow>
     set (cache c2) \<subseteq> insert (key, \<lparr>entry_timestamp = now, entry_results = rs\<rparr>) (set (cache c))"
proof -
  assume a: "SearchCache_set c key rs now = Inr c2"
  let ?e = "\<lparr>entry_timestamp = now, entry_results = rs\<rparr>"
  from a consider "cache c2 = AList.update key ?e (cache c)"
    | k where "cache c2 = AList.update key ?e (AList.delete k (cache c))"
    by (auto simp: SearchCache_set_def split: if_splits list.splits)
  then show ?thesis
  proof cases
    case 1
    then show ?thesis using set_update_subset [of key ?e "cache c"] by simp
  next
    case 2
    then show ?thesis
      using set_update_subset [of key ?e "AList.delete k (cache c)"] set_delete_subset [of k "cache c"]
      by auto
  qed
qed

lemma searchComments_try_distinct:
  assumes inv: "\<forall>e \<in> set (cache c). distinct (map id_c (entry_results (snd e)))"
  shows "(\<forall>rs. fst (searchComments_try loaded h c params page) = Inr rs \<longrightarrow> distinct (map id_c rs)) \<and>
         (\<forall>e \<in> set (cache (snd (searchComments_try loaded h c params page))).
            distinct (map id_c (entry_results (snd e))))"
proof (cases "getCacheKey params page")
  case (Inl e)
  with inv show ?thesis by (simp add: searchComments_try_def)
next
  case (Inr key)
  obtain r c1 where g: "SearchCache_get c key (now_get h) = (r, c1)"
    by (cases "SearchCache_get c key (now_get h)")
  note ge = SearchCache_get_entries [OF g]
  from ge inv have inv1: "\<forall>e \<in> set (cache c1). distinct (map id_c (entry_results (snd e)))"
    by blast
  show ?thesis
  proof (cases r)
    case (Some rs)
    with ge obtain e where "(key, e) \<in> set (cache c)" "entry_results e = rs" by blast
    with inv have "distinct (map id_c rs)" by force
    with Inr g Some inv1 show ?thesis by (simp add: searchComments_try_def)
  next
    case None
    show ?thesis
    proof (cases "query params")
      case (QString q)
      define processed where "processed =
        (if length (collect_comments h (searchTerms_of q) (limit params)) > 0
         then processCommentsWithSearchTerms (score_clock h)
                (collect_comments h (searchTerms_of q) (limit params)) (searchTerms_of q)
                (searchTerms_of q) (filterType params) q (sortBy params) (minUpvotes params)
         else mockComments loaded)"
      have pd: "distinct (map id_c processed)"
        by (simp add: processed_def processed_distinct mockComments_distinct)
      have t: "searchComments_try loaded h c params page =
                 (case SearchCache_set c1 key processed (now_set h) of
                    Inl e \<Rightarrow> (Inl e, c1)
                  | Inr c2 \<Rightarrow> (Inr (js_slice 0 (limit params) processed), c2))"
        using Inr g None QString
        by (simp add: searchComments_try_def processed_def Let_def cong: sum.case_cong)
      show ?thesis
      proof (cases "SearchCache_set c1 key processed (now_set h)")
        case (Inl e)
        with t inv1 show ?thesis by simp
      next
        case (Inr c2)
        from SearchCache_set_entries [OF Inr] inv1 pd
        have "\<forall>e \<in> set (cache c2). distinct (map id_c (entry_results (snd e)))" by auto
        with t Inr pd show ?thesis by (simp add: js_slice_distinct)
      qed
    next
      case (QStrings x)
      with Inr g None inv1 show ?thesis by (simp add: searchComments_try_def)
    next
      case (QNumber x)
      with Inr g None inv1 show ?thesis by (simp add: searchComments_try_def)
    next
      case QUndefined
      with Inr g None inv1 show ?thesis by (simp add: searchComments_try_def)
    qed
  qed
qed

lemma searchComments_resolves:
  "\<exists>rs c'. searchComments loaded h c params page = (Inr rs, c')"
  by (cases "searchComments_try loaded h c params page")
     (auto simp: searchComments_def split: sum.splits)

lemma server_searchComments_resolves:
  "\<exists>r c'. server_searchComments loaded h c params page = (Inr r, c')"
  by (cases "server_searchComments_try h c params page")
     (auto simp: server_searchComments_def split: sum.splits)

lemma searchComments_distinct:
  assumes inv: "\<forall>e \<in> set (cache c). distinct (map id_c (entry_results (snd e)))"
  shows "\<exists>rs c'. searchComments loaded h c params page = (Inr rs, c') \<and> distinct (map id_c rs) \<and>
           (\<forall>e \<in> set (cache c'). distinct (map id_c (entry_results (snd e))))"
proof -
  obtain r c' where t: "searchComments_try loaded h c params page = (r, c')"
    by (cases "searchComments_try loaded h c params page")
  from searchComments_try_distinct [OF inv, of loaded h params page] t
  have ok: "\<forall>rs. r = Inr rs \<longrightarrow> distinct (map id_c rs)"
    and inv': "\<forall>e \<in> set (cache c'). distinct (map id_c (entry_results (snd e)))"
    by simp_all
  show ?thesis
  proof (cases r)
    case (Inl e)
    with t inv' show ?thesis
      by (simp add: searchComments_def js_slice_distinct mockComments_distinct)
  next
    case (Inr rs)
    with t inv' ok show ?thesis by (simp add: searchComments_def)
  qed
qed

lemma search_session_distinct:
  "\<forall>e \<in> set (cache c). distinct (map id_c (entry_results (snd e))) \<Longrightarrow>
   \<forall>r \<in> set (search_session loaded c calls). \<exists>rs. r = Inr rs \<and> distinct (map id_c rs)"
proof (induction calls arbitrary: c)
  case Nil
  then show ?case by simp
next
  case (Cons call calls)
  obtain h params page where call: "call = (h, params, page)" by (cases call)
  from searchComments_distinct [OF Cons.prems, of loaded h params page] obtain rs c' where
    r: "searchComments loaded h c params page = (Inr rs, c')" and d: "distinct (map id_c rs)"
    and inv: "\<forall>e \<in> set (cache c'). distinct (map id_c (entry_results (snd e)))"
    by blast
  from Cons.IH [OF inv] r d call show ?case by simp
qed

lemma search_session_fresh:
  "\<forall>r \<in> set (search_session loaded new_SearchCache calls). \<exists>rs. r = Inr rs \<and> distinct (map id_c rs)"
  by (rule search_session_distinct) (simp add: new_SearchCache_def)

text \<open>
  C1, for the client module. If every list stored in the cache has distinct ids (as the
  empty cache has), then \<open>searchComments\<close> returns a list without two comments of the same
  id, on the cache hit, on the normal path and on the fallback path, and the cache keeps
  that property; so every result of every sequence of calls that starts with the empty
  cache has distinct ids. While harvesting, a comment whose id is already in
  \<^verbatim>\<open>allComments\<close> is not added again, so the collected comments have distinct ids
  whatever their source; the final pass returns a list of distinct ids that keeps every
  id of its input.
\<close>

theorem searchComments_distinct_ids:
  "((\<forall>e \<in> set (cache c). distinct (map id_c (entry_results (snd e)))) \<longrightarrow>
      (\<exists>rs c'. searchComments loaded h c params page = (Inr rs, c') \<and> distinct (map id_c rs) \<and>
         (\<forall>e \<in> set (cache c'). distinct (map id_c (entry_results (snd e)))))) \<and>
   (id_c x \<in> id_c ` set allComments \<longrightarrow> merge_comment allComments x = allComments) \<and>
   distinct (map id_c (collect_comments h searchTerms lmt)) \<and>
   distinct (map id_c (remove_duplicates xs)) \<and>
   id_c ` set (remove_duplicates xs) = id_c ` set xs \<and>
   (\<forall>r \<in> set (search_session loaded new_SearchCache calls).
      \<exists>rs. r = Inr rs \<and> distinct (map id_c rs))"
  using searchComments_distinct [of c loaded h params page] merge_comment_present [of x allComments]
    collect_comments_distinct [of h searchTerms lmt] remove_duplicates_distinct [of xs]
    remove_duplicates_ids [of xs] search_session_fresh [of loaded calls]
  by blast

lemma getCacheKey_nonstring:
  "\<forall>q. query params \<noteq> QString q \<Longrightarrow> getCacheKey params page = Inl TypeError"
  "\<forall>q. query params \<noteq> QString q \<Longrightarrow> getCacheKey_server params page = Inl TypeError"
  by (cases "query params"; simp add: getCacheKey_def getCacheKey_server_def query_toLowerCase_def)+

lemma searchComments_nonstring:
  "\<forall>q. query params \<noteq> QString q \<Longrightarrow>
   searchComments loaded h c params page = (Inr (js_slice 0 (limit params) (mockComments loaded)), c)"
  by (simp add: searchComments_def searchComments_try_def getCacheKey_nonstring)

lemma server_searchComments_nonstring:
  "\<forall>q. query params \<noteq> QString q \<Longrightarrow>
   server_searchComments loaded h c params page =
     (Inr \<lparr>comments = mockComments loaded, totalResults = int (length (mockComments loaded)),
           subreddits = count_subreddits (mockComments loaded), cacheSize = SearchCache_size c\<rparr>, c)"
  by (simp add: server_searchComments_def server_searchComments_try_def getCacheKey_nonstring)

lemma server_searchComments_failure:
  "query params = QString q \<Longrightarrow> cache c = [] \<Longrightarrow> fetched h = Inl e \<Longrightarrow>
   server_searchComments loaded h c params page =
     (Inr \<lparr>comments = mockComments loaded, totalResults = int (length (mockComments loaded)),
           subreddits = count_subreddits (mockComments loaded), cacheSize = SearchCache_size c\<rparr>, c)"
  by (simp add: server_searchComments_def server_searchComments_try_def getCacheKey_server_def
        query_toLowerCase_def SearchCache_get_def)

lemma searchComments_hit:
  assumes "getCacheKey params page = Inr key" and "map_of (cache c) key = Some e"
      and "\<not> now_get h - entry_timestamp e > ttl c"
  shows "searchComments loaded h c params page = (Inr (entry_results e), c)"
  using assms by (simp add: searchComments_def searchComments_try_def SearchCache_get_def)

lemma length_js_slice_0: "0 \<le> n \<Longrightarrow> int (length (js_slice 0 n xs)) \<le> n"
  by (simp add: js_slice_def js_index_def Let_def)

lemma searchComments_miss_bound:
  assumes "0 \<le> limit params" and "getCacheKey params page = Inr key"
      and "fst (SearchCache_get c key (now_get h)) = None"
  shows "\<exists>rs c'. searchComments loaded h c params page = (Inr rs, c') \<and> int (length rs) \<le> limit params"
proof -
  obtain c1 where g: "SearchCache_get c key (now_get h) = (None, c1)"
    using assms(3) by (cases "SearchCache_get c key (now_get h)") auto
  show ?thesis
    using assms(1,2) g
    by (auto simp: searchComments_def searchComments_try_def Let_def length_js_slice_0
             split: query_value.splits sum.splits)
qed

lemma server_miss_result:
  assumes "query params = QString q" and "fetched h = Inr arrays" and "cache c = []"
      and "0 < maxSize c"
  shows "fst (server_searchComments loaded h c params page) =
           Inr \<lparr>comments = js_slice ((page - 1) * limit params)
                               ((page - 1) * limit params + limit params)
                               (server_filtered q params arrays),
                totalResults = int (length (server_filtered q params arrays)),
                subreddits = count_subreddits (server_filtered q params arrays),
                cacheSize = 1\<rparr>"
  using assms
  by (simp add: server_searchComments_def server_searchComments_try_def getCacheKey_server_def
        query_toLowerCase_def SearchCache_get_def SearchCache_set_def Let_def SearchCache_size_def)

lemma server_dups_filtered:
  "server_filtered ''rust'' params_rust [[comment1], [comment1]] = [comment1_scored, comment1_scored]"
  by (simp add: server_filtered_def params_rust_def comment1_def comment1_scored_def Let_def
        toLowerCase_def toLowerCase_char_def startsWith_def js_sort_def server_after_def
        server_matchScore_def indexOf_def split_space_def int_or0_def)

text \<open>
  C1 fails for the \<open>searchComments\<close> of the server module, which flattens the fetched
  arrays and never compares ids: a comment that arrives twice is returned twice.
\<close>

theorem server_duplicate_ids_counterexample:
  "fst (server_searchComments 0 server_dups new_SearchCache params_rust 1) =
     Inr \<lparr>comments = [comment1_scored, comment1_scored], totalResults = 2, subreddits = 1,
          cacheSize = 1\<rparr> \<and>
   map id_c [comment1_scored, comment1_scored] = [''c1'', ''c1''] \<and>
   \<not> distinct (map id_c [comment1_scored, comment1_scored])"
proof -
  have q: "query params_rust = QString ''rust''" by (simp add: params_rust_def)
  have f: "fetched server_dups = Inr [[comment1], [comment1]]" by (simp add: server_dups_def)
  have e: "cache new_SearchCache = []" "0 < maxSize new_SearchCache"
    by (simp_all add: new_SearchCache_def)
  have s: "js_slice ((1 - 1) * limit params_rust) ((1 - 1) * limit params_rust + limit params_rust)
             [comment1_scored, comment1_scored] = [comment1_scored, comment1_scored]"
    by (simp add: js_slice_def js_index_def params_rust_def Let_def)
  have n: "count_subreddits [comment1_scored, comment1_scored] = 1"
    by (simp add: count_subreddits_def)
  have r: "fst (server_searchComments 0 server_dups new_SearchCache params_rust 1) =
             Inr \<lparr>comments = [comment1_scored, comment1_scored], totalResults = 2, subreddits = 1,
                  cacheSize = 1\<rparr>"
    using server_miss_result [OF q f e, of 0 1]
    unfolding server_dups_filtered s n by simp
  have i: "map id_c [comment1_scored, comment1_scored] = [''c1'', ''c1'']"
    by (simp add: comment1_scored_def comment1_def)
  from r i show ?thesis by simp
qed

text \<open>
  C2. Neither \<open>searchComments\<close> ever fails. A query that is not a string makes
  \<^verbatim>\<open>params.query.toLowerCase()\<close> throw inside the \<^verbatim>\<open>try\<close> block, before the
  \<^verbatim>\<open>typeof\<close> test is reached, and the \<^verbatim>\<open>catch\<close> turns the exception into the
  demonstration dataset; the cache is left as it was.
\<close>

theorem searchComments_absorbs_invalid_query:
  "(\<exists>rs c'. searchComments loaded h c params page = (Inr rs, c')) \<and>
   (\<exists>r c'. server_searchComments loaded sh c params page = (Inr r, c')) \<and>
   ((\<forall>q. query params \<noteq> QString q) \<longrightarrow>
      getCacheKey params page = Inl TypeError \<and>
      getCacheKey_server params page = Inl TypeError \<and>
      searchComments loaded h c params page =
        (Inr (js_slice 0 (limit params) (mockComments loaded)), c) \<and>
      server_searchComments loaded sh c params page =
        (Inr \<lparr>comments = mockComments loaded, totalResults = int (length (mockComments loaded)),
              subreddits = count_subreddits (mockComments loaded), cacheSize = SearchCache_size c\<rparr>, c))"
  using searchComments_resolves [of loaded h c params page]
    server_searchComments_resolves [of loaded sh c params page]
    getCacheKey_nonstring [of params page]
    searchComments_nonstring [of params loaded h c page]
    server_searchComments_nonstring [of params loaded sh c page]
  by blast

theorem searchComments_absorbs_invalid_query_witness:
  "query params_array = QStrings [''a'', ''b''] \<and>
   getCacheKey params_array 1 = Inl TypeError \<and>
   searchComments 0 harvest_none new_SearchCache params_array 1 =
     (Inr (js_slice 0 (limit params_array) (mockComments 0)), new_SearchCache) \<and>
   map id_c (js_slice 0 (limit params_array) (mockComments 0)) = [''mock1'', ''mock2''] \<and>
   server_searchComments 0 server_dups new_SearchCache params_array 1 =
     (Inr \<lparr>comments = mockComments 0, totalResults = int (length (mockComments 0)),
           subreddits = count_subreddits (mockComments 0),
           cacheSize = SearchCache_size new_SearchCache\<rparr>, new_SearchCache)"
proof -
  have q: "query params_array = QStrings [''a'', ''b'']" by (simp add: params_array_def)
  then have n: "\<forall>q. query params_array \<noteq> QString q" by simp
  have m: "map id_c (js_slice 0 (limit params_array) (mockComments 0)) = [''mock1'', ''mock2'']"
    by (simp add: js_slice_def js_index_def params_array_def mockComments_def Let_def)
  from searchComments_absorbs_invalid_query
         [of 0 harvest_none new_SearchCache params_array 1 server_dups] n q m
  show ?thesis by blast
qed

lemma key_rust: "getCacheKey params_rust 1 = Inr ''rust_all_week_relevance_5_2_1''"
  by (simp add: getCacheKey_def query_toLowerCase_def params_rust_def toLowerCase_def
        toLowerCase_char_def string_of_int_def)

lemma searchComments_miss_mock:
  assumes "getCacheKey params page = Inr key" and "query params = QString q"
      and "cache c = []" and "0 < maxSize c"
      and "collect_comments h (searchTerms_of q) (limit params) = []"
  shows "searchComments loaded h c params page =
           (Inr (js_slice 0 (limit params) (mockComments loaded)),
            c\<lparr>cache := [(key, \<lparr>entry_timestamp = now_set h, entry_results = mockComments loaded\<rparr>)]\<rparr>)"
  using assms
  by (simp add: searchComments_def searchComments_try_def SearchCache_get_def SearchCache_set_def
        Let_def)

lemma collect_nothing:
  "batches h = [] \<Longrightarrow> late_batches h = [] \<Longrightarrow> searchData h = None \<Longrightarrow>
   collect_comments h searchTerms lmt = []"
  by (simp add: collect_comments_def)

lemma first_call_rust:
  "searchComments 0 harvest_none new_SearchCache params_rust 1 =
     (Inr (js_slice 0 2 (mockComments 0)), cache_rust)"
proof -
  have q: "query params_rust = QString ''rust''" by (simp add: params_rust_def)
  have e: "cache new_SearchCache = []" "0 < maxSize new_SearchCache"
    by (simp_all add: new_SearchCache_def)
  have c: "collect_comments harvest_none (searchTerms_of ''rust'') (limit params_rust) = []"
    by (rule collect_nothing) (simp_all add: harvest_none_def)
  from searchComments_miss_mock [OF key_rust q e c, of 0]
  show ?thesis
    by (simp add: new_SearchCache_def cache_rust_def harvest_none_def params_rust_def)
qed

lemma second_call_rust:
  "searchComments 0 harvest_again cache_rust params_rust 1 = (Inr (mockComments 0), cache_rust)"
proof -
  have m: "map_of (cache cache_rust) ''rust_all_week_relevance_5_2_1'' =
             Some \<lparr>entry_timestamp = 9000, entry_results = mockComments 0\<rparr>"
    by (simp add: cache_rust_def)
  have f: "\<not> now_get harvest_again
               - entry_timestamp \<lparr>entry_timestamp = 9000, entry_results = mockComments 0\<rparr>
             > ttl cache_rust"
    by (simp add: harvest_again_def cache_rust_def)
  from searchComments_hit [OF key_rust m f, of 0] show ?thesis by simp
qed

theorem searchComments_distinct_ids_witness:
  "cache new_SearchCache = [] \<and>
   (\<exists>rs c'. searchComments 0 harvest_dups new_SearchCache params_rust 1 = (Inr rs, c') \<and>
        distinct (map id_c rs)) \<and>
   id_c comment1 \<in> id_c ` set [comment0, comment1] \<and>
   merge_comment [comment0, comment1] comment1 = [comment0, comment1] \<and>
   collect_comments harvest_dups [''rust''] 2 = [comment0, comment1] \<and>
   search_session 0 new_SearchCache [(harvest_none, params_rust, 1), (harvest_again, params_rust, 1)] =
     [Inr (js_slice 0 2 (mockComments 0)), Inr (mockComments 0)] \<and>
   distinct (map id_c (mockComments 0))"
proof -
  have e: "cache new_SearchCache = []" by (simp add: new_SearchCache_def)
  then have inv: "\<forall>e \<in> set (cache new_SearchCache). distinct (map id_c (entry_results (snd e)))"
    by simp
  have i: "id_c comment1 \<in> id_c ` set [comment0, comment1]" by simp
  have c: "collect_comments harvest_dups [''rust''] 2 = [comment0, comment1]"
    by (simp add: collect_comments_def harvest_dups_def merge_batch_def merge_comment_def
          comment0_def comment1_def)
  have s: "search_session 0 new_SearchCache
             [(harvest_none, params_rust, 1), (harvest_again, params_rust, 1)] =
           [Inr (js_slice 0 2 (mockComments 0)), Inr (mockComments 0)]"
    by (simp add: first_call_rust second_call_rust)
  note t = searchComments_distinct_ids [of new_SearchCache 0 harvest_dups params_rust 1 comment1
         "[comment0, comment1]" "[''rust'']" 2 "[comment0, comment1, comment0]"
         "[(harvest_none, params_rust, 1), (harvest_again, params_rust, 1)]"]
  from t inv i
  have a: "(\<exists>rs c'. searchComments 0 harvest_dups new_SearchCache params_rust 1 = (Inr rs, c') \<and>
           distinct (map id_c rs)) \<and>
        merge_comment [comment0, comment1] comment1 = [comment0, comment1]"
    by blast
  from t have "\<forall>r \<in> set (search_session 0 new_SearchCache
                 [(harvest_none, params_rust, 1), (harvest_again, params_rust, 1)]).
                 \<exists>rs. r = Inr rs \<and> distinct (map id_c rs)"
    by blast
  with s have b: "distinct (map id_c (mockComments 0))"
    by simp
  from a b e i c s show ?thesis by blast
qed

text \<open>
  C10. On a cache miss with \<open>limit \<ge> 0\<close> the result has at most \<open>limit\<close> comments, on the
  normal path and on the fallback path of the client module. A cache hit returns the
  cached list as it is, whatever the limit; and the server module's fallback returns the
  whole demonstration dataset.
\<close>

theorem searchComments_limit:
  "(0 \<le> limit params \<and> getCacheKey params page = Inr key \<and>
      fst (SearchCache_get c key (now_get h)) = None \<longrightarrow>
        (\<exists>rs c'. searchComments loaded h c params page = (Inr rs, c') \<and>
                  int (length rs) \<le> limit params)) \<and>
   (0 \<le> limit params \<and> (\<forall>q. query params \<noteq> QString q) \<longrightarrow>
        (\<exists>rs c'. searchComments loaded h c params page = (Inr rs, c') \<and>
                  int (length rs) \<le> limit params)) \<and>
   (getCacheKey params page = Inr key \<and> map_of (cache c) key = Some e \<and>
      \<not> now_get h - entry_timestamp e > ttl c \<longrightarrow>
        searchComments loaded h c params page = (Inr (entry_results e), c)) \<and>
   (query params = QString q \<and> cache sc = [] \<and> fetched sh = Inl err \<longrightarrow>
        (\<exists>r c'. server_searchComments loaded sh sc params page = (Inr r, c') \<and>
                 length (comments r) = 5))"
proof (intro conjI impI)
  assume "0 \<le> limit params \<and> getCacheKey params page = Inr key \<and>
          fst (SearchCache_get c key (now_get h)) = None"
  then show "\<exists>rs c'. searchComments loaded h c params page = (Inr rs, c') \<and>
                  int (length rs) \<le> limit params"
    using searchComments_miss_bound [of params page key c h loaded] by blast
next
  assume "0 \<le> limit params \<and> (\<forall>q. query params \<noteq> QString q)"
  then show "\<exists>rs c'. searchComments loaded h c params page = (Inr rs, c') \<and>
                  int (length rs) \<le> limit params"
    using searchComments_nonstring [of params loaded h c page]
    by (simp add: length_js_slice_0)
next
  assume "getCacheKey params page = Inr key \<and> map_of (cache c) key = Some e \<and>
          \<not> now_get h - entry_timestamp e > ttl c"
  then show "searchComments loaded h c params page = (Inr (entry_results e), c)"
    using searchComments_hit [of params page key c e h loaded] by blast
next
  assume "query params = QString q \<and> cache sc = [] \<and> fetched sh = Inl err"
  then show "\<exists>r c'. server_searchComments loaded sh sc params page = (Inr r, c') \<and>
                 length (comments r) = 5"
    using server_searchComments_failure [of params q sc sh err loaded page]
    by (simp add: mockComments_def)
qed

theorem searchComments_limit_witness:
  "limit params_rust = 2 \<and>
   searchComments 0 harvest_none new_SearchCache params_rust 1 =
     (Inr (js_slice 0 2 (mockComments 0)), cache_rust) \<and>
   length (js_slice 0 2 (mockComments 0)) = 2 \<and>
   getCacheKey params_rust 1 = Inr ''rust_all_week_relevance_5_2_1'' \<and>
   map_of (cache cache_rust) ''rust_all_week_relevance_5_2_1'' =
     Some \<lparr>entry_timestamp = 9000, entry_results = mockComments 0\<rparr> \<and>
   searchComments 0 harvest_again cache_rust params_rust 1 = (Inr (mockComments 0), cache_rust) \<and>
   length (mockComments 0) = 5 \<and>
   (\<exists>r c'. server_searchComments 0 server_down new_SearchCache params_rust 1 = (Inr r, c') \<and>
            length (comments r) = 5)"
proof -
  have m: "map_of (cache cache_rust) ''rust_all_week_relevance_5_2_1'' =
             Some \<lparr>entry_timestamp = 9000, entry_results = mockComments 0\<rparr>"
    by (simp add: cache_rust_def)
  have f: "\<not> now_get harvest_again
               - entry_timestamp \<lparr>entry_timestamp = 9000, entry_results = mockComments 0\<rparr>
             > ttl cache_rust"
    by (simp add: harvest_again_def cache_rust_def)
  have s: "query params_rust = QString ''rust'' \<and> cache new_SearchCache = [] \<and>
           fetched server_down = Inl AuthFailed"
    by (simp add: params_rust_def new_SearchCache_def server_down_def)
  have l: "limit params_rust = 2" "length (js_slice 0 2 (mockComments 0)) = 2"
    "length (mockComments 0) = 5"
    by (simp_all add: params_rust_def js_slice_def js_index_def mockComments_def Let_def)
  from searchComments_limit [of params_rust 1 "''rust_all_week_relevance_5_2_1''" cache_rust
         harvest_again 0 "\<lparr>entry_timestamp = 9000, entry_results = mockComments 0\<rparr>"
         "''rust''" new_SearchCache server_down AuthFailed] key_rust m f s
  have "searchComments 0 harvest_again cache_rust params_rust 1 = (Inr (mockComments 0), cache_rust) \<and>
        (\<exists>r c'. server_searchComments 0 server_down new_SearchCache params_rust 1 = (Inr r, c') \<and>
                 length (comments r) = 5)"
    by simp
  with first_call_rust key_rust m l show ?thesis by blast
qed

end
